theory Spec2Isabelle
  imports
    Complex_Main
    "HOL-Library.Char_ord"
    "HOL-Library.List_Lexorder"
    "HOL-Library.Product_Lexorder"
    "HOL-Library.Word"
begin

section \<open>Data model\<close>

text \<open>
  The two programs (\<^verbatim>\<open>project1.cpp\<close> and \<^verbatim>\<open>smart_mobility_shortest_path.cpp\<close>) keep
  the road network in process-wide hash maps.  A C++ \<^verbatim>\<open>double\<close> that is stored in these
  maps is modelled as a \<^typ>\<open>real\<close>, and arithmetic on it is exact: rounding is not
  modelled.  Where the source itself tests for a value that is not finite (\<^verbatim>\<open>isfinite\<close> in
  \<^verbatim>\<open>loadGraphML\<close>), or where a NaN can arise from the arithmetic (the square roots of
  \<^verbatim>\<open>haversine\<close>), the model has a separate case for it.  An \<^verbatim>\<open>unordered_map\<close> is a
  partial map; \<^verbatim>\<open>operator[]\<close> on a missing key yields the value-initialised default
  (\<^verbatim>\<open>0.0\<close>, the empty string, the empty vector), which the lookup functions below write
  out.
\<close>

record Node =
  node_id :: string
  lat :: real
  lon :: real

record EdgeInfo =
  edge_length :: real
  roadName :: string

record graph =
  nodes :: "string \<rightharpoonup> Node"
  adj :: "string \<rightharpoonup> (string \<times> real) list"
  edgeInfoMap :: "string \<rightharpoonup> (string \<rightharpoonup> EdgeInfo)"
  keyIdToName :: "string \<rightharpoonup> string"

definition AVG_SPEED :: real where
  "AVG_SPEED = 13.9"

text \<open>The literal \<^verbatim>\<open>1e18\<close> that both programs use as the distance of an unvisited node.\<close>

definition sentinel :: real where
  "sentinel = 10 ^ 18"

text \<open>\<^verbatim>\<open>adj[u]\<close>: the adjacency vector of \<open>u\<close>, empty when \<open>u\<close> is not a key.\<close>

definition adj_at :: "graph \<Rightarrow> string \<Rightarrow> (string \<times> real) list" where
  "adj_at g u = (case adj g u of None \<Rightarrow> [] | Some es \<Rightarrow> es)"

section \<open>Shortest-path engine\<close>

text \<open>
  The local state of \<^verbatim>\<open>dijkstra\<close>: the maps \<^verbatim>\<open>dist\<close> and \<^verbatim>\<open>prev\<close> and the priority
  queue.  \<^verbatim>\<open>priority_queue<pair<double,string>, ..., greater<>>\<close> hands out the least pair in
  the lexicographic order of (key, node id); the queue is modelled as the list of its
  entries, \<^verbatim>\<open>top\<close> as the least element and \<^verbatim>\<open>pop\<close> as its removal.
\<close>

record dstate =
  dist_map :: "string \<rightharpoonup> real"
  prev_map :: "string \<rightharpoonup> string"
  pq :: "(real \<times> string) list"

text \<open>\<^verbatim>\<open>dist[v]\<close>: a missing key reads as \<^verbatim>\<open>0.0\<close>.\<close>

definition dist_at :: "dstate \<Rightarrow> string \<Rightarrow> real" where
  "dist_at s v = (case dist_map s v of None \<Rightarrow> 0 | Some d \<Rightarrow> d)"

text \<open>\<^verbatim>\<open>prev[cur]\<close>: a missing key reads as the empty string.\<close>

definition prev_at :: "(string \<rightharpoonup> string) \<Rightarrow> string \<Rightarrow> string" where
  "prev_at pm v = (case pm v of None \<Rightarrow> [] | Some u \<Rightarrow> u)"

text \<open>
  \<^verbatim>\<open>for (auto& kv : nodes) dist[kv.first] = 1e18; dist[start] = 0; pq.push({0, start});\<close>
\<close>

definition init_state :: "graph \<Rightarrow> string \<Rightarrow> dstate" where
  "init_state g start =
     \<lparr> dist_map = (\<lambda>k. case nodes g k of None \<Rightarrow> None | Some n \<Rightarrow> Some sentinel)(start \<mapsto> 0),
       prev_map = Map.empty,
       pq = [(0, start)] \<rparr>"

text \<open>
  One pass of the body of \<^verbatim>\<open>for (auto& pr : adj[u])\<close> for the neighbour \<open>v\<close> with stored
  length \<open>w\<close>.  The two programs differ only in the candidate: \<open>edge_cost u v w\<close> stands for
  what is added to the popped key \<open>cd\<close>.
\<close>

definition relax ::
  "(string \<Rightarrow> string \<Rightarrow> real \<Rightarrow> real) \<Rightarrow> real \<Rightarrow> string \<Rightarrow> string \<times> real \<Rightarrow> dstate \<Rightarrow> dstate" where
  "relax edge_cost cd u e s =
     (case e of (v, w) \<Rightarrow>
        let cost = cd + edge_cost u v w in
        if dist_at s v > cost
        then s\<lparr> dist_map := (dist_map s)(v \<mapsto> cost),
                prev_map := (prev_map s)(v \<mapsto> u),
                pq := pq s @ [(cost, v)] \<rparr>
        else s)"

text \<open>
  \<^verbatim>\<open>while (!pq.empty()) { auto [cd, u] = pq.top(); pq.pop(); if (u == goal) break; ... }\<close>
  The loop need not end when a cost is negative, so it returns an option: \<open>None\<close> is a run that
  never leaves the loop.
\<close>

partial_function (option) dijkstra_loop ::
  "(string \<Rightarrow> string \<Rightarrow> real \<Rightarrow> real) \<Rightarrow> graph \<Rightarrow> string \<Rightarrow> dstate \<Rightarrow> dstate option" where
  "dijkstra_loop edge_cost g goal s =
     (if pq s = [] then Some s
      else (case Min (set (pq s)) of (cd, u) \<Rightarrow>
              if u = goal then Some (s\<lparr> pq := remove1 (cd, u) (pq s) \<rparr>)
              else dijkstra_loop edge_cost g goal
                     (fold (relax edge_cost cd u) (adj_at g u)
                        (s\<lparr> pq := remove1 (cd, u) (pq s) \<rparr>))))"

text \<open>
  \<^verbatim>\<open>for (string cur = goal; ; cur = prev[cur]) { path.push_back(cur); if (cur == start) break; }\<close>
  The loop has no other exit, so it too returns an option.
\<close>

partial_function (option) walk_back ::
  "(string \<rightharpoonup> string) \<Rightarrow> string \<Rightarrow> string \<Rightarrow> string list \<Rightarrow> string list option" where
  "walk_back pm start cur path =
     (if cur = start then Some (path @ [cur])
      else walk_back pm start (prev_at pm cur) (path @ [cur]))"

text \<open>
  The body shared by the two \<^verbatim>\<open>dijkstra\<close> functions, returning the route and
  \<^verbatim>\<open>dist[goal]\<close>; \<^verbatim>\<open>{ {}, -1 }\<close> is the result for an unreachable goal.
\<close>

definition dijkstra_core ::
  "(string \<Rightarrow> string \<Rightarrow> real \<Rightarrow> real) \<Rightarrow> graph \<Rightarrow> string \<Rightarrow> string \<Rightarrow> (string list \<times> real) option" where
  "dijkstra_core edge_cost g start goal =
     (case dijkstra_loop edge_cost g goal (init_state g start) of
        None \<Rightarrow> None
      | Some s \<Rightarrow>
          if dist_at s goal \<ge> sentinel then Some ([], - 1)
          else (case walk_back (prev_map s) start goal [] of
                  None \<Rightarrow> None
                | Some path \<Rightarrow> Some (rev path, dist_at s goal)))"

text \<open>
  \<^verbatim>\<open>project1.cpp\<close>: the delay table is keyed by (origin, destination);
  \<^verbatim>\<open>cost = cd + w / AVG_SPEED + lightDelay\<close>.
\<close>

definition lightDelay_p1 :: "(string \<rightharpoonup> (string \<rightharpoonup> real)) \<Rightarrow> string \<Rightarrow> string \<Rightarrow> real" where
  "lightDelay_p1 trafficDelay u v =
     (case trafficDelay u of
        None \<Rightarrow> 0
      | Some m \<Rightarrow> (case m v of None \<Rightarrow> 0 | Some d \<Rightarrow> d))"

definition cost_p1 :: "(string \<rightharpoonup> (string \<rightharpoonup> real)) \<Rightarrow> string \<Rightarrow> string \<Rightarrow> real \<Rightarrow> real" where
  "cost_p1 trafficDelay u v w = w / AVG_SPEED + lightDelay_p1 trafficDelay u v"

definition dijkstra_p1 ::
  "graph \<Rightarrow> (string \<rightharpoonup> (string \<rightharpoonup> real)) \<Rightarrow> string \<Rightarrow> string \<Rightarrow> (string list \<times> real) option" where
  "dijkstra_p1 g trafficDelay start goal = dijkstra_core (cost_p1 trafficDelay) g start goal"

text \<open>
  \<^verbatim>\<open>smart_mobility_shortest_path.cpp\<close>: \<^verbatim>\<open>lightDelay\<close> is read from the table keyed by the
  neighbour \<open>v\<close> and then not used; the candidate is \<^verbatim>\<open>cd + w\<close>.  The function returns the
  route only.
\<close>

definition cost_sm :: "(string \<rightharpoonup> real) \<Rightarrow> string \<Rightarrow> string \<Rightarrow> real \<Rightarrow> real" where
  "cost_sm trafficLightDelay u v w =
     (let lightDelay = (case trafficLightDelay v of None \<Rightarrow> 0 | Some d \<Rightarrow> d) in w)"

definition dijkstra_sm ::
  "graph \<Rightarrow> (string \<rightharpoonup> real) \<Rightarrow> string \<Rightarrow> string \<Rightarrow> string list option" where
  "dijkstra_sm g trafficLightDelay start goal =
     map_option fst (dijkstra_core (cost_sm trafficLightDelay) g start goal)"

section \<open>Great-circle distance\<close>

text \<open>
  \<^verbatim>\<open>M_PI\<close> is the macro's decimal literal and \<^verbatim>\<open>R\<close> the Earth radius in metres.
  \<^verbatim>\<open>sin\<close>, \<^verbatim>\<open>cos\<close>, \<^verbatim>\<open>sqrt\<close> and \<^verbatim>\<open>atan2\<close> are those of \<^verbatim>\<open><cmath>\<close>, read as the
  real functions they approximate; \<open>atan2\<close> is written out by quadrant.
\<close>

definition M_PI :: real where
  "M_PI = 3.14159265358979323846"

definition R_EARTH :: real where
  "R_EARTH = 6371000.0"

definition rad :: "real \<Rightarrow> real" where
  "rad d = d * M_PI / 180.0"

definition atan2 :: "real \<Rightarrow> real \<Rightarrow> real" where
  "atan2 y x =
     (if 0 < x then arctan (y / x)
      else if x < 0 then (if 0 \<le> y then arctan (y / x) + pi else arctan (y / x) - pi)
      else if 0 < y then pi / 2
      else if y < 0 then - (pi / 2)
      else 0)"

text \<open>The local \<^verbatim>\<open>a\<close> of \<^verbatim>\<open>haversine\<close>.\<close>

definition hav_a :: "real \<Rightarrow> real \<Rightarrow> real \<Rightarrow> real \<Rightarrow> real" where
  "hav_a lat1 lon1 lat2 lon2 =
     (let dlat = rad (lat2 - lat1); dlon = rad (lon2 - lon1) in
      sin (dlat / 2) * sin (dlat / 2)
      + cos (rad lat1) * cos (rad lat2) * sin (dlon / 2) * sin (dlon / 2))"

definition haversine :: "real \<Rightarrow> real \<Rightarrow> real \<Rightarrow> real \<Rightarrow> real" where
  "haversine lat1 lon1 lat2 lon2 =
     (let a = hav_a lat1 lon1 lat2 lon2 in
      2 * R_EARTH * atan2 (sqrt a) (sqrt (1 - a)))"

text \<open>
  \<open>haversine\<close> above is the value of the source expression in exact arithmetic.  The program
  evaluates it in \<^verbatim>\<open>double\<close>, where every operation rounds, and the rounded \<^verbatim>\<open>a\<close> need not
  lie in \<open>[0, 1]\<close>.  The last statement of the function,
  \<^verbatim>\<open>return 2 * R * atan2(sqrt(a), sqrt(1 - a))\<close>, is therefore given a second time as a
  function of the \<^verbatim>\<open>a\<close> that was computed: \<^verbatim>\<open>sqrt\<close> of a negative number is NaN, NaN goes
  through \<^verbatim>\<open>atan2\<close> and the product, and \<open>None\<close> stands for that NaN.
\<close>

definition haversine_of_a :: "real \<Rightarrow> real option" where
  "haversine_of_a a =
     (if a < 0 \<or> 1 - a < 0 then None
      else Some (2 * R_EARTH * atan2 (sqrt a) (sqrt (1 - a))))"

section \<open>Nearest node\<close>

text \<open>
  \<^verbatim>\<open>findNode\<close> iterates over \<^verbatim>\<open>nodes\<close>; the order in which an \<^verbatim>\<open>unordered_map\<close> hands
  out its entries is unspecified, so the function takes the stored nodes as the list \<open>ns\<close>
  in iteration order.  The pair carried through the loop is (\<^verbatim>\<open>best\<close>, \<^verbatim>\<open>minD\<close>).
\<close>

fun findNode_loop :: "real \<Rightarrow> real \<Rightarrow> Node list \<Rightarrow> string \<times> real \<Rightarrow> string \<times> real" where
  "findNode_loop la lo [] bm = bm"
| "findNode_loop la lo (n # ns) (best, minD) =
     (let d = haversine la lo (lat n) (lon n) in
      if d < minD then findNode_loop la lo ns (node_id n, d)
      else findNode_loop la lo ns (best, minD))"

definition findNode :: "Node list \<Rightarrow> real \<Rightarrow> real \<Rightarrow> string" where
  "findNode ns la lo =
     (case findNode_loop la lo ns ([], sentinel) of
        (best, minD) \<Rightarrow> if minD \<le> 20.0 then best else [])"

section \<open>Random path sampling\<close>

text \<open>
  \<^verbatim>\<open>pathLength\<close>: the sum (the accumulator \<open>acc\<close>, starting at 0) of \<^verbatim>\<open>edgeInfoMap[p[i-1]][p[i]].length\<close> for \<open>i\<close> from 1; a
  missing entry reads as the default \<^verbatim>\<open>EdgeInfo\<close>, whose length is \<^verbatim>\<open>0.0\<close>.
\<close>

definition einfo_length :: "graph \<Rightarrow> string \<Rightarrow> string \<Rightarrow> real" where
  "einfo_length g a b =
     (case edgeInfoMap g a of
        None \<Rightarrow> 0
      | Some m \<Rightarrow> (case m b of None \<Rightarrow> 0 | Some e \<Rightarrow> edge_length e))"

fun pathLength_loop :: "graph \<Rightarrow> real \<Rightarrow> string list \<Rightarrow> real" where
  "pathLength_loop g acc (a # b # p) = pathLength_loop g (acc + einfo_length g a b) (b # p)"
| "pathLength_loop g acc p = acc"

definition pathLength :: "graph \<Rightarrow> string list \<Rightarrow> real" where
  "pathLength g p = pathLength_loop g 0 p"

text \<open>\<^verbatim>\<open>(int)path.size()\<close>: the conversion of a size to a 32-bit signed integer.\<close>

definition to_int32 :: "nat \<Rightarrow> int" where
  "to_int32 n = sint (word_of_nat n :: 32 word)"

text \<open>
  The random engine is seeded from the clock.  It is modelled as an arbitrary function
  \<open>rng\<close>, the \<open>k\<close>-th value drawn being \<open>rng k\<close>, and \<^verbatim>\<open>pick(rng)\<close> over \<open>0 .. size - 1\<close>
  as \<open>rng k mod size\<close>; the state of a walk is (\<^verbatim>\<open>path\<close>, \<^verbatim>\<open>cur\<close>, number of values drawn).
  The first argument of \<open>random_walk\<close> that counts down is the number of steps left of
  \<^verbatim>\<open>for (int st = 0; st < N; st++)\<close>.
\<close>

fun random_walk ::
  "graph \<Rightarrow> string \<Rightarrow> (nat \<Rightarrow> nat) \<Rightarrow> nat \<Rightarrow> string list \<times> string \<times> nat \<Rightarrow> string list \<times> string \<times> nat" where
  "random_walk g goal rng 0 st = st"
| "random_walk g goal rng (Suc n) (path, cur, k) =
     (if cur = goal then (path, cur, k)
      else (let nb = adj_at g cur in
            if nb = [] then (path, cur, k)
            else (let nxt = fst (nb ! (rng k mod length nb)) in
                  random_walk g goal rng n (path @ [nxt], nxt, Suc k))))"

text \<open>
  The trials of \<^verbatim>\<open>for (int i = 0; i < M; i++)\<close>, the argument that counts down being the
  number of trials left; the state is (\<^verbatim>\<open>best\<close>, \<^verbatim>\<open>bestStep\<close>, \<^verbatim>\<open>bestLen\<close>, values drawn).
\<close>

fun trials ::
  "graph \<Rightarrow> string \<Rightarrow> string \<Rightarrow> int \<Rightarrow> (nat \<Rightarrow> nat) \<Rightarrow> nat \<Rightarrow>
   string list \<times> int \<times> real \<times> nat \<Rightarrow> string list \<times> int \<times> real \<times> nat" where
  "trials g start goal N rng 0 st = st"
| "trials g start goal N rng (Suc m) (best, bestStep, bestLen, k) =
     (case random_walk g goal rng (nat N) ([start], start, k) of
        (path, cur, k') \<Rightarrow>
          if cur = goal
          then (let len = pathLength g path in
                if to_int32 (length path) < bestStep
                   \<or> (to_int32 (length path) = bestStep \<and> len < bestLen)
                then trials g start goal N rng m (path, to_int32 (length path), len, k')
                else trials g start goal N rng m (best, bestStep, bestLen, k'))
          else trials g start goal N rng m (best, bestStep, bestLen, k'))"

definition monteCarlo ::
  "graph \<Rightarrow> string \<Rightarrow> string \<Rightarrow> int \<Rightarrow> int \<Rightarrow> (nat \<Rightarrow> nat) \<Rightarrow> string list" where
  "monteCarlo g start goal M N rng =
     fst (trials g start goal N rng (nat M) ([], 1000000000, sentinel, 0))"

text \<open>The process-wide maps before \<^verbatim>\<open>loadGraphML\<close> has run.\<close>

definition empty_graph :: graph where
  "empty_graph =
     \<lparr> nodes = Map.empty, adj = Map.empty, edgeInfoMap = Map.empty, keyIdToName = Map.empty \<rparr>"

section \<open>Graph builder\<close>

text \<open>
  \<^verbatim>\<open>loadGraphML\<close> walks a document parsed by tinyxml2.  An element is modelled by its
  name, its attributes in document order, the text \<^verbatim>\<open>GetText()\<close> returns (if any) and its
  child elements in document order; \<^verbatim>\<open>Attribute(n)\<close> is the value of the first attribute
  named \<open>n\<close>.
\<close>

datatype xml =
  Elem (Name: string) (attributes: "(string \<times> string) list") (GetText: "string option")
    (children: "xml list")

definition Attribute :: "xml \<Rightarrow> string \<Rightarrow> string option" where
  "Attribute e n = map_of (attributes e) n"

text \<open>
  \<^verbatim>\<open>localName\<close>: what follows the last \<^verbatim>\<open>:\<close> or \<^verbatim>\<open>}\<close> of the name, the whole name when it
  has neither.
\<close>

definition localName :: "string \<Rightarrow> string" where
  "localName s = rev (takeWhile (\<lambda>c. c \<noteq> CHR '':'' \<and> c \<noteq> CHR ''}'') (rev s))"

text \<open>
  \<^verbatim>\<open>keyIdToName[key]\<close>: the empty string for a key id that was never declared.  (The lookup
  also stores that empty string under the key, which no later lookup can tell apart from
  the key being absent.)
\<close>

definition key_name :: "(string \<rightharpoonup> string) \<Rightarrow> string \<Rightarrow> string" where
  "key_name k2n key = (case k2n key of None \<Rightarrow> [] | Some a \<Rightarrow> a)"

definition read_key :: "xml \<Rightarrow> graph \<Rightarrow> graph" where
  "read_key key g =
     (if localName (Name key) \<noteq> ''key'' then g
      else (case (Attribute key ''id'', Attribute key ''attr.name'') of
              (Some i, Some a) \<Rightarrow> g\<lparr> keyIdToName := (keyIdToName g)(i \<mapsto> a) \<rparr>
            | _ \<Rightarrow> g))"

text \<open>
  \<^verbatim>\<open>atof\<close> is the C library's; it is a parameter of the builder.  The \<^verbatim>\<open>double\<close> it returns
  is either a finite number or not finite (an infinity or a NaN, as for the texts
  \<^verbatim>\<open>inf\<close>, \<^verbatim>\<open>nan\<close> and \<^verbatim>\<open>1e999\<close>); \<^verbatim>\<open>isfinite\<close> tells the two apart, and the constant
  \<^verbatim>\<open>NAN\<close> is of the second kind.
\<close>

datatype cdouble = Finite real | NotFinite

text \<open>
  One \<^verbatim>\<open><data>\<close> child of a node element.  A coordinate is a real number in this model, so
  only a finite coordinate has a counterpart in it: a text that \<^verbatim>\<open>atof\<close> reads as not
  finite leaves the coordinate as it is, and nothing is said below about the coordinates
  of such a node.
\<close>

definition node_data :: "(string \<Rightarrow> cdouble) \<Rightarrow> (string \<rightharpoonup> string) \<Rightarrow> xml \<Rightarrow> Node \<Rightarrow> Node" where
  "node_data atof k2n d nd =
     (if localName (Name d) \<noteq> ''data'' then nd
      else (case (Attribute d ''key'', GetText d) of
              (Some key, Some txt) \<Rightarrow>
                (let attr = key_name k2n key in
                 case atof txt of
                   NotFinite \<Rightarrow> nd
                 | Finite v \<Rightarrow>
                     if attr = ''lat'' \<or> attr = ''y'' \<or> key = ''d4'' then nd\<lparr> lat := v \<rparr>
                     else if attr = ''lon'' \<or> attr = ''x'' \<or> key = ''d5'' then nd\<lparr> lon := v \<rparr>
                     else nd)
            | _ \<Rightarrow> nd))"

text \<open>\<^verbatim>\<open>nodes[id] = nd; adj[id];\<close> (the second statement creates an empty adjacency entry).\<close>

definition read_node :: "(string \<Rightarrow> cdouble) \<Rightarrow> xml \<Rightarrow> graph \<Rightarrow> graph" where
  "read_node atof n g =
     (if localName (Name n) \<noteq> ''node'' then g
      else (case Attribute n ''id'' of
              None \<Rightarrow> g
            | Some i \<Rightarrow>
                (let nd = fold (node_data atof (keyIdToName g)) (children n)
                            \<lparr> node_id = i, lat = 0, lon = 0 \<rparr> in
                 g\<lparr> nodes := (nodes g)(i \<mapsto> nd),
                    adj := (case adj g i of None \<Rightarrow> (adj g)(i \<mapsto> []) | Some es \<Rightarrow> adj g) \<rparr>)))"

text \<open>
  \<^verbatim>\<open>adj[s].push_back({ t, length }); edgeInfoMap[s][t] = { length, road };\<close>
\<close>

definition einfo_row :: "graph \<Rightarrow> string \<Rightarrow> (string \<rightharpoonup> EdgeInfo)" where
  "einfo_row g s = (case edgeInfoMap g s of None \<Rightarrow> Map.empty | Some m \<Rightarrow> m)"

definition add_edge :: "graph \<Rightarrow> string \<Rightarrow> string \<Rightarrow> real \<Rightarrow> string \<Rightarrow> graph" where
  "add_edge g s t len road =
     g\<lparr> adj := (adj g)(s \<mapsto> adj_at g s @ [(t, len)]),
        edgeInfoMap := (edgeInfoMap g)(s \<mapsto> (einfo_row g s)(t \<mapsto> \<lparr> edge_length = len, roadName = road \<rparr>)) \<rparr>"

subsection \<open>The builder of \<^verbatim>\<open>smart_mobility_shortest_path.cpp\<close>\<close>

text \<open>
  One \<^verbatim>\<open><data>\<close> child of an edge element, acting on the locals (\<^verbatim>\<open>length\<close>, \<^verbatim>\<open>road\<close>,
  \<^verbatim>\<open>oneway\<close>).  \<^verbatim>\<open>length\<close> starts as \<^verbatim>\<open>NAN\<close>, is overwritten by whatever \<^verbatim>\<open>atof\<close> returns
  for a length text, and is tested with \<^verbatim>\<open>isfinite\<close> once the children have been read.
\<close>

definition edge_data ::
  "(string \<Rightarrow> cdouble) \<Rightarrow> (string \<rightharpoonup> string) \<Rightarrow> xml \<Rightarrow> cdouble \<times> string \<times> string \<Rightarrow>
   cdouble \<times> string \<times> string" where
  "edge_data atof k2n d vars =
     (case vars of (len, road, oneway) \<Rightarrow>
        if localName (Name d) \<noteq> ''data'' then vars
        else (case (Attribute d ''key'', GetText d) of
                (Some key, Some txt) \<Rightarrow>
                  (let attr = key_name k2n key in
                   if attr = ''length'' \<or> key = ''d16'' then (atof txt, road, oneway)
                   else if attr = ''name'' \<or> key = ''d13'' then (len, txt, oneway)
                   else if attr = ''oneway'' then (len, road, txt)
                   else vars)
              | _ \<Rightarrow> vars))"

definition edge_vars ::
  "(string \<Rightarrow> cdouble) \<Rightarrow> (string \<rightharpoonup> string) \<Rightarrow> xml \<Rightarrow> cdouble \<times> string \<times> string" where
  "edge_vars atof k2n e = fold (edge_data atof k2n) (children e) (NotFinite, [], [])"

text \<open>\<^verbatim>\<open>::tolower\<close> in the C locale.\<close>

definition tolower :: "char \<Rightarrow> char" where
  "tolower c =
     (if CHR ''A'' \<le> c \<and> c \<le> CHR ''Z'' then char_of (of_char c + (32 :: nat)) else c)"

definition isOne_of :: "string \<Rightarrow> bool" where
  "isOne_of oneway =
     (oneway \<noteq> [] \<and>
      (let v = map tolower oneway in v = ''true'' \<or> v = ''yes'' \<or> v = ''1''))"

text \<open>
  Step 4-1, the length that is stored:
  \<^verbatim>\<open>if (!isfinite(length)) { if (nodes.count(s) && nodes.count(t)) length = haversine(...); else length = 0.0; }\<close>.
  A length that is not finite, whether no length was declared or the declared text was read
  as an infinity or a NaN, is replaced; a finite one is kept whatever its sign.
\<close>

definition stored_length :: "graph \<Rightarrow> string \<Rightarrow> string \<Rightarrow> cdouble \<Rightarrow> real" where
  "stored_length g s t len =
     (case len of
        NotFinite \<Rightarrow>
          (case (nodes g s, nodes g t) of
             (Some a, Some b) \<Rightarrow> haversine (lat a) (lon a) (lat b) (lon b)
           | _ \<Rightarrow> 0)
      | Finite l \<Rightarrow> l)"

definition read_edge_sm :: "(string \<Rightarrow> cdouble) \<Rightarrow> xml \<Rightarrow> graph \<Rightarrow> graph" where
  "read_edge_sm atof e g =
     (if localName (Name e) \<noteq> ''edge'' then g
      else (case (Attribute e ''source'', Attribute e ''target'') of
              (Some s, Some t) \<Rightarrow>
                (case edge_vars atof (keyIdToName g) e of
                   (len, road, oneway) \<Rightarrow>
                     (let length = stored_length g s t len;
                          isOne = isOne_of oneway;
                          g1 = add_edge g s t length road in
                      if \<not> isOne then add_edge g1 t s length road else g1))
            | _ \<Rightarrow> g))"

text \<open>The last child whose local name is \<^verbatim>\<open>graph\<close>, the root itself when there is none.\<close>

definition graph_elem_sm :: "xml \<Rightarrow> xml" where
  "graph_elem_sm root_elem =
     (case filter (\<lambda>c. localName (Name c) = ''graph'') (children root_elem) of
        [] \<Rightarrow> root_elem
      | c # cs \<Rightarrow> last (c # cs))"

text \<open>
  The document is \<open>None\<close> when the file cannot be loaded or has no root element
  (\<^verbatim>\<open>return false\<close>); otherwise the maps, empty before the call, are filled.
\<close>

definition loadGraphML_sm :: "(string \<Rightarrow> cdouble) \<Rightarrow> xml option \<Rightarrow> graph option" where
  "loadGraphML_sm atof doc =
     (case doc of
        None \<Rightarrow> None
      | Some root_elem \<Rightarrow>
          (let g0 = fold read_key (children root_elem) empty_graph;
               graph = graph_elem_sm root_elem;
               g1 = fold (read_node atof) (children graph) g0
           in Some (fold (read_edge_sm atof) (children graph) g1)))"

subsection \<open>The builder of \<^verbatim>\<open>project1.cpp\<close>\<close>

text \<open>
  \<^verbatim>\<open>nodes[s]\<close> in the edge loop: the stored node, or the default node (empty id, both
  coordinates 0), which the lookup also stores under \<open>s\<close>.
\<close>

definition node_at :: "graph \<Rightarrow> string \<Rightarrow> Node" where
  "node_at g s =
     (case nodes g s of None \<Rightarrow> \<lparr> node_id = [], lat = 0, lon = 0 \<rparr> | Some n \<Rightarrow> n)"

definition touch_node :: "graph \<Rightarrow> string \<Rightarrow> graph" where
  "touch_node g s = g\<lparr> nodes := (nodes g)(s \<mapsto> node_at g s) \<rparr>"

text \<open>The edge loop reads no \<^verbatim>\<open><data>\<close> child: both directions are always stored.\<close>

definition read_edge_p1 :: "xml \<Rightarrow> graph \<Rightarrow> graph" where
  "read_edge_p1 e g =
     (if localName (Name e) \<noteq> ''edge'' then g
      else (case (Attribute e ''source'', Attribute e ''target'') of
              (Some s, Some t) \<Rightarrow>
                (let g' = touch_node (touch_node g s) t;
                     length = haversine (lat (node_at g' s)) (lon (node_at g' s))
                                (lat (node_at g' t)) (lon (node_at g' t));
                     g1 = add_edge g' s t length []
                 in add_edge g1 t s length [])
            | _ \<Rightarrow> g))"

text \<open>\<^verbatim>\<open>root->FirstChildElement("graph")\<close>: the first child named exactly \<^verbatim>\<open>graph\<close>.\<close>

definition graph_elem_p1 :: "xml \<Rightarrow> xml" where
  "graph_elem_p1 root_elem =
     (case find (\<lambda>c. Name c = ''graph'') (children root_elem) of None \<Rightarrow> root_elem | Some c \<Rightarrow> c)"

definition loadGraphML_p1 :: "(string \<Rightarrow> cdouble) \<Rightarrow> xml option \<Rightarrow> graph option" where
  "loadGraphML_p1 atof doc =
     (case doc of
        None \<Rightarrow> None
      | Some root_elem \<Rightarrow>
          (let g0 = fold read_key (children root_elem) empty_graph;
               graph = graph_elem_p1 root_elem;
               g1 = fold (read_node atof) (children graph) g0
           in Some (fold read_edge_p1 (children graph) g1)))"

subsection \<open>Properties of a built graph\<close>

text \<open>
  The data children of an edge element that reach the branch \<^verbatim>\<open>else if (attr == "oneway")\<close>:
  those with a key and a text whose key resolves to the attribute name \<^verbatim>\<open>oneway\<close> and is
  neither of the fallback key ids \<^verbatim>\<open>d16\<close> and \<^verbatim>\<open>d13\<close>, which the two earlier branches take.
\<close>

definition oneway_text :: "(string \<rightharpoonup> string) \<Rightarrow> xml \<Rightarrow> string option" where
  "oneway_text k2n d =
     (if localName (Name d) = ''data'' then
        (case (Attribute d ''key'', GetText d) of
           (Some key, Some txt) \<Rightarrow>
             if key_name k2n key = ''oneway'' \<and> key \<noteq> ''d16'' \<and> key \<noteq> ''d13'' then Some txt
             else None
         | _ \<Rightarrow> None)
      else None)"

definition oneway_texts :: "(string \<rightharpoonup> string) \<Rightarrow> xml list \<Rightarrow> string list" where
  "oneway_texts k2n ds = List.map_filter (oneway_text k2n) ds"

text \<open>Every id in the adjacency structure, as a key or as a neighbour, has a node entry.\<close>

definition adj_registered :: "graph \<Rightarrow> bool" where
  "adj_registered g =
     (dom (adj g) \<subseteq> dom (nodes g) \<and>
      (\<forall>u v w. (v, w) \<in> set (adj_at g u) \<longrightarrow> v \<in> dom (nodes g)))"

definition lengths_nonneg :: "graph \<Rightarrow> bool" where
  "lengths_nonneg g = (\<forall>u v w. (v, w) \<in> set (adj_at g u) \<longrightarrow> 0 \<le> w)"

text \<open>
  What \<^verbatim>\<open>haversine\<close> is applied to for the nodes stored under \<open>u\<close> and \<open>v\<close>, and the
  property that every stored length is such a value for its two end points (taken in the
  order in which the edge element named them, which for the reverse entry is \<open>v\<close>, \<open>u\<close>).
\<close>

definition node_distance :: "graph \<Rightarrow> string \<Rightarrow> string \<Rightarrow> real" where
  "node_distance g u v =
     haversine (lat (node_at g u)) (lon (node_at g u)) (lat (node_at g v)) (lon (node_at g v))"

definition lengths_great_circle :: "graph \<Rightarrow> bool" where
  "lengths_great_circle g =
     (\<forall>u v w. (v, w) \<in> set (adj_at g u) \<longrightarrow> w = node_distance g u v \<or> w = node_distance g v u)"

text \<open>
  The adjacency entry (\<open>v\<close>, \<open>w\<close>) under \<open>u\<close> is one that the edge element \<open>e\<close> makes the
  builder of \<^verbatim>\<open>smart_mobility_shortest_path.cpp\<close> store: \<open>e\<close> names the two ids, in this
  order or, unless it is one-way, in the other, and \<open>w\<close> is the length of step 4-1 for what
  \<open>e\<close> declares.  \<open>lengths_from_edges\<close> says that every entry of the graph is of this kind
  for one of the elements \<open>es\<close>.
\<close>

definition edge_stores :: "(string \<Rightarrow> cdouble) \<Rightarrow> graph \<Rightarrow> xml \<Rightarrow> string \<Rightarrow> string \<Rightarrow> real \<Rightarrow> bool" where
  "edge_stores atof g e u v w =
     (localName (Name e) = ''edge'' \<and>
      (case (Attribute e ''source'', Attribute e ''target'') of
         (Some s, Some t) \<Rightarrow>
           (case edge_vars atof (keyIdToName g) e of
              (len, road, oneway) \<Rightarrow>
                ((u = s \<and> v = t) \<or> (u = t \<and> v = s \<and> \<not> isOne_of oneway)) \<and>
                w = stored_length g s t len)
       | _ \<Rightarrow> False))"

definition lengths_from_edges :: "(string \<Rightarrow> cdouble) \<Rightarrow> xml list \<Rightarrow> graph \<Rightarrow> bool" where
  "lengths_from_edges atof es g =
     (\<forall>u v w. (v, w) \<in> set (adj_at g u) \<longrightarrow> (\<exists>e\<in>set es. edge_stores atof g e u v w))"

text \<open>The edge element declares a length that is read as finite and is not negative.\<close>

definition declared_nonneg :: "(string \<Rightarrow> cdouble) \<Rightarrow> (string \<rightharpoonup> string) \<Rightarrow> xml \<Rightarrow> bool" where
  "declared_nonneg atof k2n e =
     (case fst (edge_vars atof k2n e) of Finite l \<Rightarrow> 0 \<le> l | NotFinite \<Rightarrow> False)"

text \<open>
  Small documents used in the examples: an edge element from \<open>a\<close> to \<open>b\<close> marked
  \<^verbatim>\<open>oneway = True\<close>; a document with that edge and the two nodes (without coordinates); a
  document whose only edge names two nodes that have no node element; a document with the
  nodes \<open>a\<close>, \<open>b\<close> and \<open>e\<close> whose only edge, between \<open>a\<close> and \<open>b\<close>, declares the length
  \<^verbatim>\<open>-5\<close>; and a document whose only edge declares the length \<^verbatim>\<open>inf\<close>, between a node at
  the origin and a node one degree north of it.  \<open>atof_zero\<close>, \<open>atof_minus5\<close> and \<open>atof_inf\<close>
  read the texts that occur in them as the C library does.
\<close>

definition oneway_edge :: xml where
  "oneway_edge =
     Elem ''edge'' [(''source'', ''a''), (''target'', ''b'')] None
       [Elem ''data'' [(''key'', ''d9'')] (Some ''True'') []]"

definition oneway_doc :: xml where
  "oneway_doc =
     Elem ''graphml'' [] None
       [Elem ''key'' [(''id'', ''d9''), (''attr.name'', ''oneway'')] None [],
        Elem ''graph'' [] None
          [Elem ''node'' [(''id'', ''a'')] None [],
           Elem ''node'' [(''id'', ''b'')] None [],
           oneway_edge]]"

definition dangling_doc :: xml where
  "dangling_doc =
     Elem ''graphml'' [] None
       [Elem ''graph'' [] None
          [Elem ''edge'' [(''source'', ''a''), (''target'', ''b'')] None []]]"

definition negative_doc :: xml where
  "negative_doc =
     Elem ''graphml'' [] None
       [Elem ''key'' [(''id'', ''d16''), (''attr.name'', ''length'')] None [],
        Elem ''graph'' [] None
          [Elem ''node'' [(''id'', ''a'')] None [],
           Elem ''node'' [(''id'', ''b'')] None [],
           Elem ''node'' [(''id'', ''e'')] None [],
           Elem ''edge'' [(''source'', ''a''), (''target'', ''b'')] None
             [Elem ''data'' [(''key'', ''d16'')] (Some ''-5'') []]]]"

definition nonfinite_doc :: xml where
  "nonfinite_doc =
     Elem ''graphml'' [] None
       [Elem ''key'' [(''id'', ''d4''), (''attr.name'', ''lat'')] None [],
        Elem ''key'' [(''id'', ''d16''), (''attr.name'', ''length'')] None [],
        Elem ''graph'' [] None
          [Elem ''node'' [(''id'', ''a'')] None [],
           Elem ''node'' [(''id'', ''b'')] None [Elem ''data'' [(''key'', ''d4'')] (Some ''1'') []],
           Elem ''edge'' [(''source'', ''a''), (''target'', ''b'')] None
             [Elem ''data'' [(''key'', ''d16'')] (Some ''inf'') []]]]"

definition atof_zero :: "string \<Rightarrow> cdouble" where
  "atof_zero txt = Finite 0"

definition atof_minus5 :: "string \<Rightarrow> cdouble" where
  "atof_minus5 txt = (if txt = ''-5'' then Finite (- 5) else Finite 0)"

definition atof_inf :: "string \<Rightarrow> cdouble" where
  "atof_inf txt = (if txt = ''inf'' then NotFinite else if txt = ''1'' then Finite 1 else Finite 0)"

text \<open>The key table after the key element of \<open>oneway_doc\<close> has been read.\<close>

definition oneway_keys :: graph where
  "oneway_keys = empty_graph\<lparr> keyIdToName := [''d9'' \<mapsto> ''oneway''] \<rparr>"

section \<open>Paths, costs and the loop invariant\<close>

text \<open>
  A directed path from \<open>start\<close>, listed from its last node back to \<open>start\<close> (the order in
  which \<^verbatim>\<open>dijkstra\<close> collects the route before reversing it), together with the sum of
  the costs of its edges.  Parallel edges are separate entries of an adjacency vector, so a
  step names the entry it takes.
\<close>

inductive rpath ::
  "(string \<Rightarrow> string \<Rightarrow> real \<Rightarrow> real) \<Rightarrow> graph \<Rightarrow> string \<Rightarrow> string list \<Rightarrow> real \<Rightarrow> bool"
  for edge_cost g start where
    rpath_start: "rpath edge_cost g start [start] 0"
  | rpath_step:
      "rpath edge_cost g start (u # p) d \<Longrightarrow> (v, w) \<in> set (adj_at g u) \<Longrightarrow>
         rpath edge_cost g start (v # u # p) (d + edge_cost u v w)"

text \<open>Every edge of the graph has a non-negative cost.\<close>

definition nonneg_costs :: "(string \<Rightarrow> string \<Rightarrow> real \<Rightarrow> real) \<Rightarrow> graph \<Rightarrow> bool" where
  "nonneg_costs edge_cost g = (\<forall>u v w. (v, w) \<in> set (adj_at g u) \<longrightarrow> 0 \<le> edge_cost u v w)"

text \<open>
  The chain of predecessor links from a node back to \<open>start\<close>, as the route reconstruction
  follows it.
\<close>

inductive bchain :: "(string \<rightharpoonup> string) \<Rightarrow> string \<Rightarrow> string \<Rightarrow> string list \<Rightarrow> bool"
  for pm start where
    bchain_start: "bchain pm start start [start]"
  | bchain_step: "v \<noteq> start \<Longrightarrow> pm v = Some u \<Longrightarrow> bchain pm start u p \<Longrightarrow> bchain pm start v (v # p)"

text \<open>
  A node is reached once it has been given a predecessor (or is the start); it is settled
  when, in addition, the queue no longer holds the entry with its current distance.  The
  program keeps no such set; both notions are read off the state.
\<close>

definition reached :: "string \<Rightarrow> dstate \<Rightarrow> string \<Rightarrow> bool" where
  "reached start s v \<longleftrightarrow> v = start \<or> prev_map s v \<noteq> None"

definition settled :: "string \<Rightarrow> dstate \<Rightarrow> string \<Rightarrow> bool" where
  "settled start s v \<longleftrightarrow> reached start s v \<and> (dist_at s v, v) \<notin> set (pq s)"

text \<open>What \<^verbatim>\<open>dist[v]\<close> reads for a node that has not been reached.\<close>

definition dist0 :: "graph \<Rightarrow> string \<Rightarrow> string \<Rightarrow> real" where
  "dist0 g start v = (if v = start then 0 else if v \<in> dom (nodes g) then sentinel else 0)"

definition base_inv ::
  "(string \<Rightarrow> string \<Rightarrow> real \<Rightarrow> real) \<Rightarrow> graph \<Rightarrow> string \<Rightarrow> string \<Rightarrow> dstate \<Rightarrow> bool" where
  "base_inv ec g start goal s \<longleftrightarrow>
     distinct (pq s) \<and>
     (\<forall>d v. (d, v) \<in> set (pq s) \<longrightarrow> reached start s v \<and> dist_at s v \<le> d \<and> 0 \<le> d) \<and>
     dist_at s start = 0 \<and> prev_map s start = None \<and>
     (\<forall>v. \<not> reached start s v \<longrightarrow> dist_at s v = dist0 g start v) \<and>
     (\<forall>v. reached start s v \<and> v \<noteq> start \<longrightarrow>
        (\<exists>x w. prev_map s v = Some x \<and> settled start s x \<and> (v, w) \<in> set (adj_at g x) \<and>
               dist_at s v = dist_at s x + ec x v w \<and> dist_at s v < sentinel)) \<and>
     (\<forall>x d y. settled start s x \<longrightarrow> (d, y) \<in> set (pq s) \<longrightarrow> dist_at s x \<le> d) \<and>
     (\<forall>x. settled start s x \<longrightarrow>
        (\<exists>p. bchain (prev_map s) start x p \<and> (\<forall>y\<in>set p. settled start s y) \<and>
             rpath ec g start p (dist_at s x))) \<and>
     (reached start s goal \<longrightarrow> (dist_at s goal, goal) \<in> set (pq s))"

text \<open>
  The invariant at the head of the \<^verbatim>\<open>while\<close> loop: every edge out of a settled node has
  been relaxed.
\<close>

definition head_inv ::
  "(string \<Rightarrow> string \<Rightarrow> real \<Rightarrow> real) \<Rightarrow> graph \<Rightarrow> string \<Rightarrow> string \<Rightarrow> dstate \<Rightarrow> bool" where
  "head_inv ec g start goal s \<longleftrightarrow>
     base_inv ec g start goal s \<and>
     (\<forall>x v w. settled start s x \<longrightarrow> (v, w) \<in> set (adj_at g x) \<longrightarrow>
        dist_at s v \<le> dist_at s x + ec x v w)"

text \<open>
  The invariant inside the \<^verbatim>\<open>for\<close> loop over the neighbours of the popped node \<open>u\<close> (popped
  with key \<open>cd\<close>), \<open>rem\<close> being the adjacency entries still to be relaxed.
\<close>

definition mid_inv ::
  "(string \<Rightarrow> string \<Rightarrow> real \<Rightarrow> real) \<Rightarrow> graph \<Rightarrow> string \<Rightarrow> string \<Rightarrow> real \<Rightarrow> string \<Rightarrow>
   (string \<times> real) list \<Rightarrow> dstate \<Rightarrow> bool" where
  "mid_inv ec g start goal cd u rem s \<longleftrightarrow>
     base_inv ec g start goal s \<and>
     settled start s u \<and> dist_at s u = cd \<and> 0 \<le> cd \<and>
     (\<forall>x. settled start s x \<longrightarrow> dist_at s x \<le> cd) \<and>
     set rem \<subseteq> set (adj_at g u) \<and>
     (\<forall>x v w. settled start s x \<longrightarrow> (v, w) \<in> set (adj_at g x) \<longrightarrow>
        (x = u \<and> (v, w) \<in> set rem) \<or> dist_at s v \<le> dist_at s x + ec x v w)"



text \<open>
  How the loop is left: with an empty queue, or by the \<^verbatim>\<open>break\<close> after popping the goal
  from a state \<open>s'\<close> that satisfies the invariant.
\<close>

definition loop_exit ::
  "(string \<Rightarrow> string \<Rightarrow> real \<Rightarrow> real) \<Rightarrow> graph \<Rightarrow> string \<Rightarrow> string \<Rightarrow> dstate \<Rightarrow> bool" where
  "loop_exit ec g start goal t \<longleftrightarrow>
     (pq t = [] \<and> head_inv ec g start goal t) \<or>
     (\<exists>s' cd. head_inv ec g start goal s' \<and> pq s' \<noteq> [] \<and> Min (set (pq s')) = (cd, goal) \<and>
        t = s'\<lparr> pq := remove1 (cd, goal) (pq s') \<rparr>)"

text \<open>The ids a search from \<open>start\<close> can ever touch: the start and every neighbour.\<close>

definition touched :: "graph \<Rightarrow> string \<Rightarrow> string set" where
  "touched g start = insert start (\<Union>u\<in>dom (adj g). fst ` set (adj_at g u))"

section \<open>The four-node cycle\<close>

text \<open>
  The cycle A-B-C-D-A with edges of 100 m, in the form either builder leaves it in when the
  edges are read in the order A-B, B-C, C-D, D-A.
\<close>

definition cycle_graph :: graph where
  "cycle_graph =
     \<lparr> nodes = [''A'' \<mapsto> \<lparr> node_id = ''A'', lat = 0, lon = 0 \<rparr>,
                ''B'' \<mapsto> \<lparr> node_id = ''B'', lat = 0, lon = 0 \<rparr>,
                ''C'' \<mapsto> \<lparr> node_id = ''C'', lat = 0, lon = 0 \<rparr>,
                ''D'' \<mapsto> \<lparr> node_id = ''D'', lat = 0, lon = 0 \<rparr>],
       adj = [''A'' \<mapsto> [(''B'', 100), (''D'', 100)],
              ''B'' \<mapsto> [(''A'', 100), (''C'', 100)],
              ''C'' \<mapsto> [(''B'', 100), (''D'', 100)],
              ''D'' \<mapsto> [(''C'', 100), (''A'', 100)]],
       edgeInfoMap = Map.empty,
       keyIdToName = Map.empty \<rparr>"

text \<open>
  Signal delays of 10 s at node \<open>B\<close>: for the table of \<^verbatim>\<open>project1.cpp\<close>, on both edges
  leaving \<open>B\<close>; for the table of \<^verbatim>\<open>smart_mobility_shortest_path.cpp\<close>, on the node.
\<close>

definition cycle_delay :: "string \<rightharpoonup> (string \<rightharpoonup> real)" where
  "cycle_delay = [''B'' \<mapsto> [''A'' \<mapsto> 10, ''C'' \<mapsto> 10]]"

definition cycle_light :: "string \<rightharpoonup> real" where
  "cycle_light = [''B'' \<mapsto> 10]"


text \<open>
  A document with node elements for \<open>S\<close> and \<open>G\<close> only, and three edges with declared
  lengths: \<open>S\<close>-\<open>X\<close> of 1 m, \<open>X\<close>-\<open>G\<close> of 1 m and \<open>S\<close>-\<open>G\<close> of 10 m.  \<open>atof_small\<close> reads the two
  texts that occur as the C library does.
\<close>

definition detour_doc :: xml where
  "detour_doc =
     Elem ''graphml'' [] None
       [Elem ''key'' [(''id'', ''d16''), (''attr.name'', ''length'')] None [],
        Elem ''graph'' [] None
          [Elem ''node'' [(''id'', ''S'')] None [],
           Elem ''node'' [(''id'', ''G'')] None [],
           Elem ''edge'' [(''source'', ''S''), (''target'', ''X'')] None
             [Elem ''data'' [(''key'', ''d16'')] (Some ''1'') []],
           Elem ''edge'' [(''source'', ''X''), (''target'', ''G'')] None
             [Elem ''data'' [(''key'', ''d16'')] (Some ''1'') []],
           Elem ''edge'' [(''source'', ''S''), (''target'', ''G'')] None
             [Elem ''data'' [(''key'', ''d16'')] (Some ''10'') []]]]"

definition atof_small :: "string \<Rightarrow> cdouble" where
  "atof_small txt = (if txt = ''1'' then Finite 1 else if txt = ''10'' then Finite 10 else Finite 0)"

text \<open>The maps the builder of \<^verbatim>\<open>smart_mobility_shortest_path.cpp\<close> fills from \<open>detour_doc\<close>.\<close>

definition detour_graph :: graph where
  "detour_graph =
     \<lparr> nodes = [''S'' \<mapsto> \<lparr> node_id = ''S'', lat = 0, lon = 0 \<rparr>,
                ''G'' \<mapsto> \<lparr> node_id = ''G'', lat = 0, lon = 0 \<rparr>],
       adj = [''X'' \<mapsto> [(''S'', 1), (''G'', 1)],
              ''S'' \<mapsto> [(''X'', 1), (''G'', 10)],
              ''G'' \<mapsto> [(''X'', 1), (''S'', 10)]],
       edgeInfoMap =
         [''X'' \<mapsto> [''S'' \<mapsto> \<lparr> edge_length = 1, roadName = [] \<rparr>,
                     ''G'' \<mapsto> \<lparr> edge_length = 1, roadName = [] \<rparr>],
          ''S'' \<mapsto> [''X'' \<mapsto> \<lparr> edge_length = 1, roadName = [] \<rparr>,
                     ''G'' \<mapsto> \<lparr> edge_length = 10, roadName = [] \<rparr>],
          ''G'' \<mapsto> [''X'' \<mapsto> \<lparr> edge_length = 1, roadName = [] \<rparr>,
                     ''S'' \<mapsto> \<lparr> edge_length = 10, roadName = [] \<rparr>]],
       keyIdToName = [''d16'' \<mapsto> ''length''] \<rparr>"



section \<open>Start equal to goal\<close>

lemma dijkstra_core_same: "dijkstra_core ec g n n = Some ([n], 0)"
proof -
  have "dijkstra_loop ec g n (init_state g n) = Some ((init_state g n)\<lparr> pq := [] \<rparr>)"
    by (subst dijkstra_loop.simps) (simp add: init_state_def)
  moreover have "dist_at ((init_state g n)\<lparr> pq := [] \<rparr>) n = 0"
    by (simp add: dist_at_def init_state_def)
  moreover have "walk_back pm n n [] = Some [n]" for pm
    by (subst walk_back.simps) simp
  ultimately show ?thesis
    by (simp add: dijkstra_core_def sentinel_def)
qed

text \<open>
  C9.  With start = goal = \<open>n\<close> both engines return the one-node route \<open>[n]\<close>, the
  cost-returning one with total cost 0; the result is never the no-path value.  This holds
  for every graph and delay table, whether or not \<open>n\<close> is registered.
\<close>

theorem dijkstra_start_is_goal:
  "dijkstra_p1 g trafficDelay n n = Some ([n], 0) \<and> dijkstra_sm g trafficLightDelay n n = Some [n]"
  by (simp add: dijkstra_p1_def dijkstra_sm_def dijkstra_core_same)

section \<open>Great-circle distance: properties\<close>

lemma rad_diff: "rad (x - y) = rad x - rad y"
  by (simp add: rad_def algebra_simps diff_divide_distrib)

lemma hav_key:
  fixes x y :: real
  shows "sin ((y - x) / 2) * sin ((y - x) / 2) + cos x * cos y = cos ((x + y) / 2) * cos ((x + y) / 2)"
proof -
  define u v where "u = x / 2" and "v = y / 2"
  have x: "x = 2 * u" and y: "y = 2 * v" by (simp_all add: u_def v_def)
  have a: "(y - x) / 2 = v - u" and b: "(x + y) / 2 = u + v" by (simp_all add: u_def v_def field_simps)
  show ?thesis
    unfolding a b unfolding x y cos_double sin_diff cos_add
    by (simp add: algebra_simps power2_eq_square)
qed

lemma hav_a_split:
  "hav_a lat1 lon1 lat2 lon2 =
     (1 - (sin (rad (lon2 - lon1) / 2))\<^sup>2) * (sin (rad (lat2 - lat1) / 2))\<^sup>2
     + (sin (rad (lon2 - lon1) / 2))\<^sup>2 * (cos ((rad lat1 + rad lat2) / 2))\<^sup>2"
proof -
  have "(sin (rad (lat2 - lat1) / 2))\<^sup>2 + cos (rad lat1) * cos (rad lat2) = (cos ((rad lat1 + rad lat2) / 2))\<^sup>2"
    using hav_key [of "rad lat2" "rad lat1"] by (simp add: rad_diff power2_eq_square)
  then have c: "cos (rad lat1) * cos (rad lat2) = (cos ((rad lat1 + rad lat2) / 2))\<^sup>2 - (sin (rad (lat2 - lat1) / 2))\<^sup>2"
    by simp
  have "hav_a lat1 lon1 lat2 lon2 =
      (sin (rad (lat2 - lat1) / 2))\<^sup>2 + (cos (rad lat1) * cos (rad lat2)) * (sin (rad (lon2 - lon1) / 2))\<^sup>2"
    by (simp add: hav_a_def Let_def power2_eq_square)
  also have "\<dots> = (1 - (sin (rad (lon2 - lon1) / 2))\<^sup>2) * (sin (rad (lat2 - lat1) / 2))\<^sup>2
     + (sin (rad (lon2 - lon1) / 2))\<^sup>2 * (cos ((rad lat1 + rad lat2) / 2))\<^sup>2"
    unfolding c by (simp add: algebra_simps)
  finally show ?thesis .
qed

lemma hav_a_nonneg: "0 \<le> hav_a lat1 lon1 lat2 lon2"
proof -
  have "(sin (rad (lon2 - lon1) / 2))\<^sup>2 \<le> 1" by (simp add: abs_square_le_1)
  then show ?thesis unfolding hav_a_split by simp
qed

lemma hav_a_le_1: "hav_a lat1 lon1 lat2 lon2 \<le> 1"
proof -
  let ?s = "(sin (rad (lon2 - lon1) / 2))\<^sup>2"
  have s: "0 \<le> ?s" "?s \<le> 1" by (simp_all add: abs_square_le_1)
  have p: "(sin (rad (lat2 - lat1) / 2))\<^sup>2 \<le> 1" by (simp add: abs_square_le_1)
  have q: "(cos ((rad lat1 + rad lat2) / 2))\<^sup>2 \<le> 1" by (simp add: abs_square_le_1)
  have "(1 - ?s) * (sin (rad (lat2 - lat1) / 2))\<^sup>2 \<le> (1 - ?s) * 1"
    using s p by (intro mult_left_mono) simp_all
  moreover have "?s * (cos ((rad lat1 + rad lat2) / 2))\<^sup>2 \<le> ?s * 1"
    using s q by (intro mult_left_mono) simp_all
  ultimately show ?thesis unfolding hav_a_split by simp
qed

lemma hav_a_sym: "hav_a lat1 lon1 lat2 lon2 = hav_a lat2 lon2 lat1 lon1"
proof -
  have "rad (lat2 - lat1) / 2 = - (rad (lat1 - lat2) / 2)" "rad (lon2 - lon1) / 2 = - (rad (lon1 - lon2) / 2)"
    by (simp_all add: rad_def field_simps)
  then show ?thesis
    by (simp add: hav_a_def Let_def mult.commute)
qed

lemma hav_a_same: "hav_a la lo la lo = 0"
  by (simp add: hav_a_def rad_def)

lemma haversine_same: "haversine la lo la lo = 0"
  by (simp add: haversine_def hav_a_same atan2_def)

lemma haversine_sym: "haversine lat1 lon1 lat2 lon2 = haversine lat2 lon2 lat1 lon1"
  by (simp add: haversine_def hav_a_sym [of lat1 lon1 lat2 lon2])

text \<open>
  In exact arithmetic \<open>a\<close> lies in \<open>[0, 1]\<close>, both square roots are taken of non-negative
  numbers, and the last statement of the function yields the number \<open>haversine\<close>.
\<close>

lemma haversine_exact:
  "haversine_of_a (hav_a lat1 lon1 lat2 lon2) = Some (haversine lat1 lon1 lat2 lon2)"
  using hav_a_nonneg [of lat1 lon1 lat2 lon2] hav_a_le_1 [of lat1 lon1 lat2 lon2]
  by (simp add: haversine_of_a_def haversine_def Let_def)

text \<open>
  C8.  The function as the program evaluates it is not total in the sense of the claim.  For
  the antipodal pair (latitude 2.5, longitude \<open>- 180\<close>) and (latitude \<open>- 2.5\<close>, longitude 0)
  the sum that \<^verbatim>\<open>double\<close> arithmetic stores in \<^verbatim>\<open>a\<close> is \<open>1 + 1 / 2 ^ 52\<close>, the \<^verbatim>\<open>double\<close> next above
  1 (the exact value is just below 1).  Then \<^verbatim>\<open>1 - a\<close> is negative, \<^verbatim>\<open>sqrt(1 - a)\<close> is NaN, and
  the function returns NaN, which is not a non-negative number: nothing in the function
  keeps \<^verbatim>\<open>a\<close> within \<open>[0, 1]\<close>.  The theorem evaluates the last statement of the function at
  that \<^verbatim>\<open>a\<close>.
\<close>

theorem haversine_nan_above_one:
  "haversine_of_a (1 + 1 / 2 ^ 52) = None"
  by (simp add: haversine_of_a_def)

subsection \<open>Nearest node\<close>

lemma haversine_meridian:
  assumes "0 \<le> d" "rad d < pi"
  shows "haversine la lo (la + d) lo = R_EARTH * rad d"
proof -
  define t where "t = rad d / 2"
  have r: "0 \<le> rad d" using assms(1) by (simp add: rad_def M_PI_def)
  have t: "0 \<le> t" "t < pi / 2" using r assms(2) by (simp_all add: t_def)
  have a: "hav_a la lo (la + d) lo = (sin t)\<^sup>2"
    by (simp add: hav_a_def Let_def t_def rad_def power2_eq_square)
  have s: "0 \<le> sin t" using t pi_gt_zero by (intro sin_ge_zero) linarith+
  have c: "0 < cos t" using t by (intro cos_gt_zero_pi) linarith+
  have "1 - (sin t)\<^sup>2 = (cos t)\<^sup>2" by (simp add: cos_squared_eq)
  then have "sqrt (1 - (sin t)\<^sup>2) = cos t" using c by simp
  moreover have "sqrt ((sin t)\<^sup>2) = sin t" using s by simp
  moreover have "arctan (sin t / cos t) = t"
    using t arctan_tan [of t] by (simp add: tan_def)
  ultimately have "atan2 (sqrt ((sin t)\<^sup>2)) (sqrt (1 - (sin t)\<^sup>2)) = t"
    using c by (simp add: atan2_def)
  then show ?thesis
    by (simp add: haversine_def Let_def a t_def)
qed

lemma findNode_loop_spec:
  "findNode_loop la lo ns (b, m) = (b', m') \<Longrightarrow>
     m' \<le> m \<and> (\<forall>n\<in>set ns. m' \<le> haversine la lo (lat n) (lon n)) \<and>
     ((b', m') = (b, m) \<or> (\<exists>n\<in>set ns. b' = node_id n \<and> m' = haversine la lo (lat n) (lon n)))"
proof (induction ns arbitrary: b m)
  case Nil
  then show ?case by simp
next
  case (Cons n ns)
  let ?d = "haversine la lo (lat n) (lon n)"
  show ?case
  proof (cases "?d < m")
    case True
    with Cons.prems have "findNode_loop la lo ns (node_id n, ?d) = (b', m')" by simp
    from Cons.IH [OF this] True show ?thesis by auto
  next
    case False
    with Cons.prems have "findNode_loop la lo ns (b, m) = (b', m')" by simp
    from Cons.IH [OF this] False show ?thesis by auto
  qed
qed

text \<open>
  C5.  \<open>findNode\<close> goes through every stored node, computing its great-circle distance to
  the query point.  When every node is farther than 20 m the result is the empty string
  (not found); when some node is within 20 m the result is the id of a node whose distance
  is least among all nodes (and at most 20 m).
\<close>

theorem findNode_nearest_within_tolerance:
  "((\<forall>n\<in>set ns. 20 < haversine la lo (lat n) (lon n)) \<longrightarrow> findNode ns la lo = []) \<and>
   ((\<exists>n\<in>set ns. haversine la lo (lat n) (lon n) \<le> 20) \<longrightarrow>
      (\<exists>n\<in>set ns. findNode ns la lo = node_id n \<and> haversine la lo (lat n) (lon n) \<le> 20 \<and>
         (\<forall>m\<in>set ns. haversine la lo (lat n) (lon n) \<le> haversine la lo (lat m) (lon m))))"
proof -
  obtain b' m' where r: "findNode_loop la lo ns ([], sentinel) = (b', m')"
    by (cases "findNode_loop la lo ns ([], sentinel)")
  note s = findNode_loop_spec [OF r]
  have f: "findNode ns la lo = (if m' \<le> 20 then b' else [])"
    by (simp add: findNode_def r)
  have far: "findNode ns la lo = []" if "\<forall>n\<in>set ns. 20 < haversine la lo (lat n) (lon n)"
  proof -
    from s have "(b', m') = ([], sentinel) \<or> (\<exists>n\<in>set ns. m' = haversine la lo (lat n) (lon n))"
      by blast
    then have "20 < m'" using that by (auto simp: sentinel_def)
    then show ?thesis by (simp add: f)
  qed
  have near: "\<exists>n\<in>set ns. findNode ns la lo = node_id n \<and> haversine la lo (lat n) (lon n) \<le> 20 \<and>
         (\<forall>m\<in>set ns. haversine la lo (lat n) (lon n) \<le> haversine la lo (lat m) (lon m))"
    if "\<exists>n\<in>set ns. haversine la lo (lat n) (lon n) \<le> 20"
  proof -
    from that obtain k where k: "k \<in> set ns" "haversine la lo (lat k) (lon k) \<le> 20" by blast
    with s have m: "m' \<le> 20" by force
    then have "m' \<noteq> sentinel" by (simp add: sentinel_def)
    with s obtain n where n: "n \<in> set ns" "b' = node_id n" "m' = haversine la lo (lat n) (lon n)"
      by auto
    with s m f show ?thesis by auto
  qed
  from far near show ?thesis by blast
qed

text \<open>A query point 25 m north of the only node is not matched; one 15 m north of it is.\<close>

lemma dist_example: "0 \<le> x \<Longrightarrow> x \<le> 1000 \<Longrightarrow> haversine (x * 180 / (R_EARTH * M_PI)) 0 0 0 = x"
proof -
  assume x: "0 \<le> x" "x \<le> 1000"
  let ?d = "x * 180 / (R_EARTH * M_PI)"
  have rd: "rad ?d = x / R_EARTH" by (simp add: rad_def R_EARTH_def M_PI_def)
  have "x / R_EARTH < 2" using x by (simp add: R_EARTH_def)
  then have "rad ?d < pi" using pi_ge_two rd by linarith
  moreover have "0 \<le> ?d" using x by (simp add: R_EARTH_def M_PI_def)
  ultimately have h: "haversine 0 0 (0 + ?d) 0 = R_EARTH * rad ?d" by (rule haversine_meridian[rotated])
  have "haversine ?d 0 0 0 = haversine 0 0 (0 + ?d) 0"
    by (simp only: add_0 haversine_sym [of ?d 0 0 0])
  also have "\<dots> = R_EARTH * rad ?d" by (rule h)
  also have "\<dots> = x" unfolding rd by (simp add: R_EARTH_def)
  finally show ?thesis .
qed

theorem findNode_nearest_within_tolerance_witness:
  "findNode [\<lparr> node_id = ''n1'', lat = 0, lon = 0 \<rparr>] (25 * 180 / (R_EARTH * M_PI)) 0 = [] \<and>
   findNode [\<lparr> node_id = ''n1'', lat = 0, lon = 0 \<rparr>] (15 * 180 / (R_EARTH * M_PI)) 0 = ''n1''"
proof -
  have a: "haversine (25 * 180 / (R_EARTH * M_PI)) 0 0 0 = 25" by (rule dist_example) simp_all
  have b: "haversine (15 * 180 / (R_EARTH * M_PI)) 0 0 0 = 15" by (rule dist_example) simp_all
  from a have a': "haversine (4500 / (R_EARTH * M_PI)) 0 0 0 = 25" by simp
  from b have b': "haversine (2700 / (R_EARTH * M_PI)) 0 0 0 = 15" by simp
  show ?thesis
    using findNode_nearest_within_tolerance [of "[\<lparr> node_id = ''n1'', lat = 0, lon = 0 \<rparr>]" "25 * 180 / (R_EARTH * M_PI)" 0]
      findNode_nearest_within_tolerance [of "[\<lparr> node_id = ''n1'', lat = 0, lon = 0 \<rparr>]" "15 * 180 / (R_EARTH * M_PI)" 0]
    by (simp add: a' b')
qed

section \<open>Random path sampling: properties\<close>

lemma trials_no_hit:
  "start \<noteq> goal \<Longrightarrow> trials g start goal 0 rng m st = st"
proof (induction m arbitrary: st)
  case 0
  then show ?case by simp
next
  case (Suc m)
  obtain best bs bl k where st: "st = (best, bs, bl, k)" by (cases st)
  from Suc show ?case by (simp add: st)
qed

lemma to_int32_1: "to_int32 (Suc 0) = 1"
  by (simp add: to_int32_def)

lemma trials_hit_again:
  "trials g n n 0 rng m ([n], 1, 0, k) = ([n], 1, 0, k)"
  by (induction m) (simp_all add: pathLength_def to_int32_1)

lemma trials_first_hit:
  "trials g n n 0 rng (Suc m) ([], 1000000000, sentinel, 0) = ([n], 1, 0, 0)"
  by (simp add: pathLength_def to_int32_1 trials_hit_again)

text \<open>
  C7 (as amended).  With trial count \<open>M = 0\<close>, or with step budget \<open>N = 0\<close> and a start
  different from the goal, the sampler returns the empty route, for every graph and every
  sequence of random values.  With \<open>N = 0\<close>, at least one trial and start equal to goal,
  the very first trial is already at the goal and the sampler returns the one-node route.
\<close>

theorem monteCarlo_zero_budget:
  "(M = 0 \<or> (N = 0 \<and> start \<noteq> goal) \<longrightarrow> monteCarlo g start goal M N rng = []) \<and>
   (N = 0 \<and> 0 < M \<and> start = goal \<longrightarrow> monteCarlo g start goal M N rng = [start])"
proof -
  have "monteCarlo g start goal 0 N rng = []"
    by (simp add: monteCarlo_def)
  moreover have "monteCarlo g start goal M 0 rng = []" if "start \<noteq> goal"
    using that by (simp add: monteCarlo_def trials_no_hit)
  moreover have "monteCarlo g start start M 0 rng = [start]" if "0 < M"
  proof -
    from that obtain m where "nat M = Suc m" by (cases "nat M") simp_all
    then show ?thesis by (simp only: monteCarlo_def trials_first_hit fst_conv)
  qed
  ultimately show ?thesis by blast
qed

theorem monteCarlo_zero_budget_witness:
  "monteCarlo empty_graph ''a'' ''b'' 0 1000 (\<lambda>k. 0) = [] \<and>
   monteCarlo empty_graph ''a'' ''b'' 2000 0 (\<lambda>k. 0) = [] \<and>
   monteCarlo empty_graph ''a'' ''a'' 2000 0 (\<lambda>k. 0) = [''a'']"
  using monteCarlo_zero_budget [of 0 1000 "''a''" "''b''" empty_graph "\<lambda>k. 0"]
    monteCarlo_zero_budget [of 2000 0 "''a''" "''b''" empty_graph "\<lambda>k. 0"]
    monteCarlo_zero_budget [of 2000 0 "''a''" "''a''" empty_graph "\<lambda>k. 0"]
  by simp

text \<open>
  The claim as first stated (\<open>N = 0\<close> always gives the empty route) fails for one trial
  from a node to itself.
\<close>

theorem monteCarlo_zero_steps_counterexample:
  "monteCarlo empty_graph ''a'' ''a'' 1 0 (\<lambda>k. 0) = [''a'']"
  by (simp add: monteCarlo_def pathLength_def to_int32_def)

section \<open>Graph builder: properties\<close>

lemma adj_at_add_edge:
  "adj_at (add_edge g s t len road) u = (if u = s then adj_at g s @ [(t, len)] else adj_at g u)"
  by (simp add: add_edge_def adj_at_def)

lemma nodes_add_edge [simp]: "nodes (add_edge g s t len road) = nodes g"
  by (simp add: add_edge_def)

lemma keyIdToName_add_edge [simp]: "keyIdToName (add_edge g s t len road) = keyIdToName g"
  by (simp add: add_edge_def)

lemma dom_adj_add_edge: "dom (adj (add_edge g s t len road)) = insert s (dom (adj g))"
  by (simp add: add_edge_def)

lemma einfo_row_add_edge:
  "einfo_row (add_edge g s t len road) u =
     (if u = s then (einfo_row g s)(t \<mapsto> \<lparr> edge_length = len, roadName = road \<rparr>) else einfo_row g u)"
  by (simp add: add_edge_def einfo_row_def)

lemma read_edge_sm_edge:
  assumes "localName (Name e) = ''edge''" "Attribute e ''source'' = Some s"
    "Attribute e ''target'' = Some t" "edge_vars atof (keyIdToName g) e = (len0, road, oneway)"
  shows "read_edge_sm atof e g =
     (if isOne_of oneway then add_edge g s t (stored_length g s t len0) road
      else add_edge (add_edge g s t (stored_length g s t len0) road) t s (stored_length g s t len0) road)"
  using assms by (simp add: read_edge_sm_def Let_def)

lemma read_edge_p1_edge:
  assumes "localName (Name e) = ''edge''" "Attribute e ''source'' = Some s"
    "Attribute e ''target'' = Some t"
  shows "read_edge_p1 e g =
     add_edge (add_edge (touch_node (touch_node g s) t) s t
        (haversine (lat (node_at g s)) (lon (node_at g s)) (lat (node_at g t)) (lon (node_at g t))) [])
       t s (haversine (lat (node_at g s)) (lon (node_at g s)) (lat (node_at g t)) (lon (node_at g t))) []"
proof -
  have "node_at (touch_node (touch_node g s) t) x = node_at g x" for x
    by (simp add: touch_node_def node_at_def)
  with assms show ?thesis by (simp add: read_edge_p1_def Let_def)
qed

lemma adj_at_touch_node [simp]: "adj_at (touch_node g s) u = adj_at g u"
  by (simp add: touch_node_def adj_at_def)

lemma isOne_of_iff: "isOne_of oneway \<longleftrightarrow> map tolower oneway \<in> {''true'', ''yes'', ''1''}"
  by (auto simp: isOne_of_def Let_def)

lemma fold_snoc: "fold f (xs @ [x]) s = f x (fold f xs s)"
  by simp

lemma edge_data_oneway:
  "snd (snd (edge_data atof k2n d v)) = (case oneway_text k2n d of None \<Rightarrow> snd (snd v) | Some txt \<Rightarrow> txt)"
  by (cases v) (auto simp: edge_data_def oneway_text_def Let_def split: option.splits)

lemma fold_edge_data_oneway:
  "snd (snd (fold (edge_data atof k2n) ds v)) =
     (if oneway_texts k2n ds = [] then snd (snd v) else last (oneway_texts k2n ds))"
proof (induction ds rule: rev_induct)
  case Nil
  then show ?case by (simp add: oneway_texts_def map_filter_def)
next
  case (snoc d ds)
  show ?case
    by (cases "oneway_text k2n d")
      (simp_all add: edge_data_oneway snoc.IH oneway_texts_def map_filter_def)
qed

lemma edge_vars_oneway:
  "edge_vars atof k2n e = (len0, road, oneway) \<Longrightarrow>
     oneway = (if oneway_texts k2n (children e) = [] then [] else last (oneway_texts k2n (children e)))"
  using fold_edge_data_oneway [of atof k2n "children e" "(NotFinite, [], [])"]
  by (simp add: edge_vars_def)

lemma count_one:
  "count_list (adj_at (add_edge g s t len road) u) x =
     count_list (adj_at g u) x + (if u = s \<and> x = (t, len) then 1 else 0)"
  by (simp add: adj_at_add_edge)

lemma count_after_edges:
  "count_list (adj_at (if one then add_edge g s t len road
                       else add_edge (add_edge g s t len road) t s len road) u) x =
     count_list (adj_at g u) x + (if u = s \<and> x = (t, len) then 1 else 0)
     + (if \<not> one \<and> u = t \<and> x = (s, len) then 1 else 0)"
  by (cases one) (simp_all add: count_one)

lemma einfo_after_edges:
  "einfo_row (if one then add_edge g s t len road
              else add_edge (add_edge g s t len road) t s len road) s t
     = Some \<lparr> edge_length = len, roadName = road \<rparr>"
  by (simp add: einfo_row_add_edge)

lemma einfo_after_reverse:
  "einfo_row (add_edge (add_edge g s t len road) t s len road) t s
     = Some \<lparr> edge_length = len, roadName = road \<rparr>"
  by (simp add: einfo_row_add_edge)

lemma einfo_row_touch_node [simp]: "einfo_row (touch_node g s) u = einfo_row g u"
  by (simp add: touch_node_def einfo_row_def)

lemma einfo_after_p1:
  "einfo_row (add_edge (add_edge (touch_node (touch_node g s) t) s t len []) t s len []) s t
     = Some \<lparr> edge_length = len, roadName = [] \<rparr>"
  "einfo_row (add_edge (add_edge (touch_node (touch_node g s) t) s t len []) t s len []) t s
     = Some \<lparr> edge_length = len, roadName = [] \<rparr>"
  by (simp_all add: einfo_row_add_edge)

lemma count_after_p1:
  "count_list (adj_at (add_edge (add_edge (touch_node (touch_node g s) t) s t len []) t s len []) u) x =
     count_list (adj_at g u) x + (if u = s \<and> x = (t, len) then 1 else 0)
     + (if u = t \<and> x = (s, len) then 1 else 0)"
  by (simp add: count_one)

text \<open>
  C3 (as amended).  For an edge element with a source \<open>s\<close> and a target \<open>t\<close>, let \<open>oneway\<close> be
  the text of its last data child that resolves to the attribute name \<^verbatim>\<open>oneway\<close> (empty when
  there is none), and \<open>one\<close> say that its lower-cased form is \<^verbatim>\<open>true\<close>, \<^verbatim>\<open>yes\<close> or \<^verbatim>\<open>1\<close>.
  The builder of \<^verbatim>\<open>smart_mobility_shortest_path.cpp\<close> adds exactly one adjacency entry
  (\<open>s\<close> to \<open>t\<close>) when \<open>one\<close> holds and exactly the two entries \<open>s\<close> to \<open>t\<close> and \<open>t\<close> to \<open>s\<close>
  otherwise, all with the same stored length, and records that length and the road name
  for each direction it adds.  The builder of \<^verbatim>\<open>project1.cpp\<close> reads no edge attribute and
  always adds both entries, with the length \<^verbatim>\<open>haversine\<close> returns for the two end points,
  and records that length and an empty road name for both directions.
\<close>

theorem edge_insertion:
  assumes "localName (Name e) = ''edge''" "Attribute e ''source'' = Some s"
    "Attribute e ''target'' = Some t"
    and "edge_vars atof (keyIdToName g) e = (len0, road, oneway)"
    and "len = stored_length g s t len0"
    and "len1 = haversine (lat (node_at g s)) (lon (node_at g s)) (lat (node_at g t)) (lon (node_at g t))"
    and "one = (map tolower oneway \<in> {''true'', ''yes'', ''1''})"
  shows
    "oneway = (if oneway_texts (keyIdToName g) (children e) = [] then []
               else last (oneway_texts (keyIdToName g) (children e))) \<and>
     count_list (adj_at (read_edge_sm atof e g) u) x =
       count_list (adj_at g u) x + (if u = s \<and> x = (t, len) then 1 else 0)
       + (if \<not> one \<and> u = t \<and> x = (s, len) then 1 else 0) \<and>
     einfo_row (read_edge_sm atof e g) s t = Some \<lparr> edge_length = len, roadName = road \<rparr> \<and>
     (\<not> one \<longrightarrow>
        einfo_row (read_edge_sm atof e g) t s = Some \<lparr> edge_length = len, roadName = road \<rparr>) \<and>
     count_list (adj_at (read_edge_p1 e g) u) x =
       count_list (adj_at g u) x + (if u = s \<and> x = (t, len1) then 1 else 0)
       + (if u = t \<and> x = (s, len1) then 1 else 0) \<and>
     einfo_row (read_edge_p1 e g) s t = Some \<lparr> edge_length = len1, roadName = [] \<rparr> \<and>
     einfo_row (read_edge_p1 e g) t s = Some \<lparr> edge_length = len1, roadName = [] \<rparr>"
proof -
  have o: "isOne_of oneway = one"
    unfolding assms(7) by (rule isOne_of_iff)
  have sm: "read_edge_sm atof e g =
     (if one then add_edge g s t len road
      else add_edge (add_edge g s t len road) t s len road)"
    unfolding assms(5) o [symmetric] by (rule read_edge_sm_edge [OF assms(1-4)])
  have p1: "read_edge_p1 e g =
     add_edge (add_edge (touch_node (touch_node g s) t) s t len1 []) t s len1 []"
    unfolding assms(6) by (rule read_edge_p1_edge [OF assms(1-3)])
  have a: "oneway = (if oneway_texts (keyIdToName g) (children e) = [] then []
               else last (oneway_texts (keyIdToName g) (children e)))"
    by (rule edge_vars_oneway [OF assms(4)])
  have b: "count_list (adj_at (read_edge_sm atof e g) u) x =
       count_list (adj_at g u) x + (if u = s \<and> x = (t, len) then 1 else 0)
       + (if \<not> one \<and> u = t \<and> x = (s, len) then 1 else 0)"
    unfolding sm by (rule count_after_edges)
  have c: "einfo_row (read_edge_sm atof e g) s t = Some \<lparr> edge_length = len, roadName = road \<rparr>"
    unfolding sm by (rule einfo_after_edges)
  have d: "\<not> one \<longrightarrow>
        einfo_row (read_edge_sm atof e g) t s = Some \<lparr> edge_length = len, roadName = road \<rparr>"
    unfolding sm by (simp add: einfo_after_reverse)
  have e: "count_list (adj_at (read_edge_p1 e g) u) x =
       count_list (adj_at g u) x + (if u = s \<and> x = (t, len1) then 1 else 0)
       + (if u = t \<and> x = (s, len1) then 1 else 0)"
    unfolding p1 by (rule count_after_p1)
  have f: "einfo_row (read_edge_p1 e g) s t = Some \<lparr> edge_length = len1, roadName = [] \<rparr>"
    unfolding p1 by (rule einfo_after_p1)
  have g: "einfo_row (read_edge_p1 e g) t s = Some \<lparr> edge_length = len1, roadName = [] \<rparr>"
    unfolding p1 by (rule einfo_after_p1)
  show ?thesis
    by (intro conjI) (rule a b c d e f g)+
qed

lemma tolower_True: "map tolower ''True'' = ''true''"
  by code_simp

lemma isOne_of_True: "isOne_of ''True''"
  unfolding isOne_of_def Let_def tolower_True by simp

lemmas builder_defs =
  graph_elem_sm_def graph_elem_p1_def read_key_def read_node_def read_edge_sm_def read_edge_p1_def
  edge_vars_def edge_data_def node_data_def key_name_def stored_length_def localName_def
  Attribute_def empty_graph_def add_edge_def adj_at_def einfo_row_def touch_node_def node_at_def
  atof_zero_def

theorem edge_insertion_witness:
  "count_list (adj_at (read_edge_sm atof_zero oneway_edge oneway_keys) ''a'') (''b'', 0) = 1 \<and>
   count_list (adj_at (read_edge_sm atof_zero oneway_edge oneway_keys) ''b'') (''a'', 0) = 0 \<and>
   count_list (adj_at (read_edge_p1 oneway_edge oneway_keys) ''b'') (''a'', 0) = 1 \<and>
   einfo_row (read_edge_sm atof_zero oneway_edge oneway_keys) ''a'' ''b''
     = Some \<lparr> edge_length = 0, roadName = [] \<rparr> \<and>
   einfo_row (read_edge_p1 oneway_edge oneway_keys) ''b'' ''a''
     = Some \<lparr> edge_length = 0, roadName = [] \<rparr>"
proof -
  have 1: "localName (Name oneway_edge) = ''edge''"
    by (simp add: oneway_edge_def localName_def)
  have 2: "Attribute oneway_edge ''source'' = Some ''a''" "Attribute oneway_edge ''target'' = Some ''b''"
    by (simp_all add: oneway_edge_def Attribute_def)
  have 3: "edge_vars atof_zero (keyIdToName oneway_keys) oneway_edge = (NotFinite, [], ''True'')"
    by (simp add: oneway_edge_def oneway_keys_def builder_defs)
  have 4: "(0::real) = stored_length oneway_keys ''a'' ''b'' NotFinite"
    by (simp add: stored_length_def oneway_keys_def empty_graph_def)
  have 5: "(0::real) = haversine (lat (node_at oneway_keys ''a'')) (lon (node_at oneway_keys ''a''))
        (lat (node_at oneway_keys ''b'')) (lon (node_at oneway_keys ''b''))"
    by (simp add: node_at_def oneway_keys_def empty_graph_def haversine_same)
  have 6: "True = (map tolower ''True'' \<in> {''true'', ''yes'', ''1''})"
    unfolding tolower_True by simp
  have 7: "adj_at oneway_keys u = []" for u
    by (simp add: adj_at_def oneway_keys_def empty_graph_def)
  from edge_insertion [OF 1 2 3 4 5 6, of "''a''" "(''b'', 0)"]
    edge_insertion [OF 1 2 3 4 5 6, of "''b''" "(''a'', 0)"]
  show ?thesis by (simp add: 7)
qed

text \<open>
  The claim as first stated fails for the builder of \<^verbatim>\<open>project1.cpp\<close>: the edge of
  \<open>oneway_doc\<close> is marked one-way, and the reverse entry from \<open>b\<close> to \<open>a\<close> is stored all the same.
\<close>

theorem edge_insertion_counterexample:
  "map_option (\<lambda>g. adj_at g ''b'') (loadGraphML_p1 atof_zero (Some oneway_doc)) = Some [(''a'', 0)]"
  by (simp add: loadGraphML_p1_def oneway_doc_def oneway_edge_def builder_defs haversine_same)

subsection \<open>What a build guarantees\<close>

lemma fold_invariant:
  assumes "P s" and "\<And>x s. x \<in> set xs \<Longrightarrow> P s \<Longrightarrow> P (f x s)"
  shows "P (fold f xs s)"
  using assms by (induction xs arbitrary: s) simp_all

lemma read_key_fields [simp]:
  "nodes (read_key k g) = nodes g" "adj (read_key k g) = adj g"
  by (simp_all add: read_key_def split: option.splits)

lemma read_node_keys [simp]: "keyIdToName (read_node atof n g) = keyIdToName g"
  by (simp add: read_node_def Let_def split: option.splits)

lemma read_edge_sm_keys [simp]: "keyIdToName (read_edge_sm atof e g) = keyIdToName g"
  by (simp add: read_edge_sm_def Let_def split: option.splits prod.splits)

lemma read_edge_sm_nodes [simp]: "nodes (read_edge_sm atof e g) = nodes g"
  by (simp add: read_edge_sm_def Let_def split: option.splits prod.splits)

lemma fold_read_node_keys [simp]: "keyIdToName (fold (read_node atof) ns g) = keyIdToName g"
  by (induction ns arbitrary: g) simp_all

lemma fold_read_edge_sm_keys [simp]: "keyIdToName (fold (read_edge_sm atof) es g) = keyIdToName g"
  by (induction es arbitrary: g) simp_all

lemma fold_read_edge_sm_nodes [simp]: "nodes (fold (read_edge_sm atof) es g) = nodes g"
  by (induction es arbitrary: g) simp_all

lemma adj_at_empty: "adj_at empty_graph u = []"
  by (simp add: empty_graph_def adj_at_def)

lemma adj_registered_empty: "adj_registered empty_graph"
  by (simp add: adj_registered_def empty_graph_def adj_at_def)

lemma adj_registered_read_key: "adj_registered (read_key k g) = adj_registered g"
  by (simp add: adj_registered_def adj_at_def)

lemma adj_at_read_key [simp]: "adj_at (read_key k g) u = adj_at g u"
  by (simp add: adj_at_def)

lemma adj_at_read_node [simp]: "adj_at (read_node atof n g) u = adj_at g u"
  by (simp add: read_node_def Let_def adj_at_def split: option.splits)

lemma dom_read_node:
  "dom (nodes g) \<subseteq> dom (nodes (read_node atof n g))"
  "dom (adj (read_node atof n g)) - dom (adj g) \<subseteq> dom (nodes (read_node atof n g))"
  by (auto simp: read_node_def Let_def split: option.splits if_splits)

lemma adj_registered_read_node: "adj_registered g \<Longrightarrow> adj_registered (read_node atof n g)"
  using dom_read_node [where g = g and atof = atof and n = n] unfolding adj_registered_def adj_at_read_node by blast

lemma adj_registered_add_edge:
  "adj_registered g \<Longrightarrow> s \<in> dom (nodes g) \<Longrightarrow> t \<in> dom (nodes g) \<Longrightarrow>
     adj_registered (add_edge g s t len road)"
proof -
  assume a: "adj_registered g" and s: "s \<in> dom (nodes g)" and t: "t \<in> dom (nodes g)"
  have "v \<in> dom (nodes g)" if "(v, w) \<in> set (adj_at (add_edge g s t len road) u)" for u v w
  proof (cases "(v, w) \<in> set (adj_at g u)")
    case True
    with a show ?thesis unfolding adj_registered_def by blast
  next
    case False
    with that have "v = t" by (auto simp: adj_at_add_edge split: if_splits)
    with t show ?thesis by simp
  qed
  moreover have "dom (adj (add_edge g s t len road)) \<subseteq> dom (nodes g)"
    using a s unfolding adj_registered_def dom_adj_add_edge by blast
  ultimately show ?thesis unfolding adj_registered_def nodes_add_edge by blast
qed

lemma read_edge_sm_cases:
  obtains "read_edge_sm atof e g = g"
  | s t len0 road oneway where "localName (Name e) = ''edge''" "Attribute e ''source'' = Some s"
      "Attribute e ''target'' = Some t" "edge_vars atof (keyIdToName g) e = (len0, road, oneway)"
proof (cases "localName (Name e) = ''edge'' \<and> Attribute e ''source'' \<noteq> None \<and> Attribute e ''target'' \<noteq> None")
  case True
  then obtain s t where "Attribute e ''source'' = Some s" "Attribute e ''target'' = Some t" by auto
  moreover obtain len0 road oneway where "edge_vars atof (keyIdToName g) e = (len0, road, oneway)"
    by (cases "edge_vars atof (keyIdToName g) e")
  ultimately show ?thesis using True that(2) by blast
next
  case False
  then have "read_edge_sm atof e g = g"
    by (auto simp: read_edge_sm_def split: option.splits)
  then show ?thesis by (rule that(1))
qed

lemma adj_registered_read_edge_sm:
  assumes "adj_registered g"
    "\<And>s t. localName (Name e) = ''edge'' \<Longrightarrow> Attribute e ''source'' = Some s \<Longrightarrow>
        Attribute e ''target'' = Some t \<Longrightarrow> s \<in> dom (nodes g) \<and> t \<in> dom (nodes g)"
  shows "adj_registered (read_edge_sm atof e g)"
proof (cases rule: read_edge_sm_cases [of atof e g])
  case 1
  with assms(1) show ?thesis by simp
next
  case (2 s t len0 road oneway)
  from assms(2) [OF 2(1-3)] have "s \<in> dom (nodes g)" "t \<in> dom (nodes g)" by simp_all
  then show ?thesis
    unfolding read_edge_sm_edge [OF 2]
    using assms(1) by (simp add: adj_registered_add_edge)
qed

lemma touch_node_fields:
  "dom (nodes (touch_node g s)) = insert s (dom (nodes g))" "adj (touch_node g s) = adj g"
  by (simp_all add: touch_node_def)

lemma adj_registered_touch_node: "adj_registered g \<Longrightarrow> adj_registered (touch_node g s)"
  unfolding adj_registered_def touch_node_fields adj_at_touch_node by blast

lemma read_edge_p1_cases:
  obtains "read_edge_p1 e g = g"
  | s t where "localName (Name e) = ''edge''" "Attribute e ''source'' = Some s"
      "Attribute e ''target'' = Some t"
proof (cases "localName (Name e) = ''edge'' \<and> Attribute e ''source'' \<noteq> None \<and> Attribute e ''target'' \<noteq> None")
  case True
  then show ?thesis using that(2) by auto
next
  case False
  then have "read_edge_p1 e g = g"
    by (auto simp: read_edge_p1_def split: option.splits)
  then show ?thesis by (rule that(1))
qed

lemma nodes_phase:
  "adj_registered (fold (read_node atof) ns (fold read_key ks empty_graph)) \<and>
   (\<forall>u. adj_at (fold (read_node atof) ns (fold read_key ks empty_graph)) u = [])"
proof -
  have "adj_registered (fold read_key ks empty_graph) \<and>
        (\<forall>u. adj_at (fold read_key ks empty_graph) u = [])"
    by (rule fold_invariant [where P = "\<lambda>h. adj_registered h \<and> (\<forall>u. adj_at h u = [])"])
      (simp_all add: adj_registered_empty adj_registered_read_key adj_at_empty)
  then show ?thesis
    by (rule fold_invariant [where P = "\<lambda>h. adj_registered h \<and> (\<forall>u. adj_at h u = [])"])
      (simp add: adj_registered_read_node)
qed

paragraph \<open>Lengths stored by \<^verbatim>\<open>project1.cpp\<close>\<close>

lemma node_at_touch_node [simp]: "node_at (touch_node g s) x = node_at g x"
  by (simp add: touch_node_def node_at_def)

lemma node_at_add_edge [simp]: "node_at (add_edge g s t len road) x = node_at g x"
  by (simp add: node_at_def)

lemma node_distance_touch_node [simp]: "node_distance (touch_node g s) u v = node_distance g u v"
  by (simp add: node_distance_def)

lemma node_distance_add_edge [simp]:
  "node_distance (add_edge g s t len road) u v = node_distance g u v"
  by (simp add: node_distance_def node_at_def)

lemma lengths_great_circle_touch_node:
  "lengths_great_circle (touch_node g s) = lengths_great_circle g"
  by (simp add: lengths_great_circle_def)

lemma lengths_great_circle_add_edge:
  "lengths_great_circle g \<Longrightarrow> len = node_distance g s t \<or> len = node_distance g t s \<Longrightarrow>
     lengths_great_circle (add_edge g s t len road)"
  by (auto simp: lengths_great_circle_def adj_at_add_edge split: if_splits)

lemma invariants_read_edge_p1:
  assumes "adj_registered g \<and> lengths_great_circle g"
  shows "adj_registered (read_edge_p1 e g) \<and> lengths_great_circle (read_edge_p1 e g)"
proof (cases rule: read_edge_p1_cases [of e g])
  case 1
  with assms show ?thesis by simp
next
  case (2 s t)
  let ?g = "touch_node (touch_node g s) t"
  let ?len = "haversine (lat (node_at g s)) (lon (node_at g s)) (lat (node_at g t)) (lon (node_at g t))"
  let ?g1 = "add_edge ?g s t ?len []"
  have r: "adj_registered ?g" and n: "lengths_great_circle ?g"
    using assms by (simp_all add: adj_registered_touch_node lengths_great_circle_touch_node)
  have d: "s \<in> dom (nodes ?g)" "t \<in> dom (nodes ?g)"
    by (simp_all add: touch_node_fields)
  have l: "?len = node_distance ?g s t" "?len = node_distance ?g1 s t"
    by (simp_all add: node_distance_def)
  have r1: "adj_registered ?g1"
    using r d by (rule adj_registered_add_edge)
  have n1: "lengths_great_circle ?g1"
    by (rule lengths_great_circle_add_edge [OF n]) (use l(1) in simp)
  have "adj_registered (add_edge ?g1 t s ?len [])"
    by (rule adj_registered_add_edge [OF r1]) (simp_all add: touch_node_fields)
  moreover have "lengths_great_circle (add_edge ?g1 t s ?len [])"
    by (rule lengths_great_circle_add_edge [OF n1]) (use l(2) in simp)
  ultimately show ?thesis
    unfolding read_edge_p1_edge [OF 2] by simp
qed

lemma loadGraphML_p1_invariants:
  assumes "loadGraphML_p1 atof (Some rt) = Some g"
  shows "adj_registered g \<and> lengths_great_circle g"
proof -
  let ?g1 = "fold (read_node atof) (children (graph_elem_p1 rt)) (fold read_key (children rt) empty_graph)"
  from assms have g: "g = fold read_edge_p1 (children (graph_elem_p1 rt)) ?g1"
    by (simp add: loadGraphML_p1_def Let_def)
  have 0: "adj_registered ?g1 \<and> lengths_great_circle ?g1"
    using nodes_phase [of atof "children (graph_elem_p1 rt)" "children rt"]
    by (simp add: lengths_great_circle_def)
  show ?thesis unfolding g
    by (rule fold_invariant [where P = "\<lambda>h. adj_registered h \<and> lengths_great_circle h", OF 0])
      (rule invariants_read_edge_p1)
qed

paragraph \<open>Lengths stored by \<^verbatim>\<open>smart_mobility_shortest_path.cpp\<close>\<close>

lemma edge_stores_cong:
  assumes "nodes h = nodes g" "keyIdToName h = keyIdToName g"
  shows "edge_stores atof h e u v w = edge_stores atof g e u v w"
proof -
  have sl: "stored_length h = stored_length g"
    by (intro ext) (simp add: stored_length_def assms split: cdouble.splits)
  show ?thesis
    unfolding edge_stores_def assms(2) sl by (rule refl)
qed

lemma lengths_from_edges_read_edge_sm:
  assumes "lengths_from_edges atof es g" "e \<in> set es"
  shows "lengths_from_edges atof es (read_edge_sm atof e g)"
proof (cases rule: read_edge_sm_cases [of atof e g])
  case 1
  with assms(1) show ?thesis by simp
next
  case (2 s t len0 road oneway)
  let ?L = "stored_length g s t len0"
  have same: "edge_stores atof (read_edge_sm atof e g) e' u v w = edge_stores atof g e' u v w"
    for e' u v w
    by (rule edge_stores_cong) simp_all
  have new: "edge_stores atof g e s t ?L" "\<not> isOne_of oneway \<Longrightarrow> edge_stores atof g e t s ?L"
    using 2 by (simp_all add: edge_stores_def)
  have mem: "(v, w) \<in> set (adj_at g u) \<or> (u = s \<and> v = t \<and> w = ?L) \<or>
             (\<not> isOne_of oneway \<and> u = t \<and> v = s \<and> w = ?L)"
    if "(v, w) \<in> set (adj_at (read_edge_sm atof e g) u)" for u v w
    using that unfolding read_edge_sm_edge [OF 2]
    by (auto simp: adj_at_add_edge split: if_splits)
  show ?thesis
    unfolding lengths_from_edges_def same
  proof (intro allI impI)
    fix u v w
    assume "(v, w) \<in> set (adj_at (read_edge_sm atof e g) u)"
    from mem [OF this] show "\<exists>e'\<in>set es. edge_stores atof g e' u v w"
      using assms new unfolding lengths_from_edges_def by blast
  qed
qed

lemma loadGraphML_sm_lengths:
  assumes "loadGraphML_sm atof (Some rt) = Some g"
  shows "lengths_from_edges atof (children (graph_elem_sm rt)) g"
proof -
  let ?es = "children (graph_elem_sm rt)"
  let ?g1 = "fold (read_node atof) ?es (fold read_key (children rt) empty_graph)"
  from assms have g: "g = fold (read_edge_sm atof) ?es ?g1"
    by (simp add: loadGraphML_sm_def Let_def)
  have 0: "lengths_from_edges atof ?es ?g1"
    using nodes_phase [of atof ?es "children rt"] by (simp add: lengths_from_edges_def)
  show ?thesis unfolding g
    by (rule fold_invariant [where P = "lengths_from_edges atof ?es", OF 0])
      (rule lengths_from_edges_read_edge_sm)
qed

lemma lengths_nonneg_declared:
  assumes "lengths_from_edges atof es g"
    and "\<forall>e\<in>set es. \<forall>s t. localName (Name e) = ''edge'' \<longrightarrow> Attribute e ''source'' = Some s \<longrightarrow>
           Attribute e ''target'' = Some t \<longrightarrow> declared_nonneg atof (keyIdToName g) e"
  shows "lengths_nonneg g"
  unfolding lengths_nonneg_def
proof (intro allI impI)
  fix u v w
  assume "(v, w) \<in> set (adj_at g u)"
  with assms(1) obtain e where e: "e \<in> set es" "edge_stores atof g e u v w"
    unfolding lengths_from_edges_def by blast
  from e(2) obtain s t len road oneway where
    st: "localName (Name e) = ''edge''" "Attribute e ''source'' = Some s" "Attribute e ''target'' = Some t"
    and v: "edge_vars atof (keyIdToName g) e = (len, road, oneway)" and w: "w = stored_length g s t len"
    unfolding edge_stores_def by (auto split: option.splits prod.splits)
  from assms(2) e(1) st have "declared_nonneg atof (keyIdToName g) e" by blast
  with v obtain l where "len = Finite l" "0 \<le> l"
    unfolding declared_nonneg_def by (auto split: cdouble.splits)
  with w show "0 \<le> w" by (simp add: stored_length_def)
qed

lemma loadGraphML_sm_registered:
  assumes "loadGraphML_sm atof (Some rt) = Some g"
    and "\<forall>e\<in>set (children (graph_elem_sm rt)). localName (Name e) = ''edge'' \<longrightarrow>
           (\<forall>s t. Attribute e ''source'' = Some s \<longrightarrow> Attribute e ''target'' = Some t \<longrightarrow>
              s \<in> dom (nodes g) \<and> t \<in> dom (nodes g))"
  shows "adj_registered g"
proof -
  let ?g1 = "fold (read_node atof) (children (graph_elem_sm rt)) (fold read_key (children rt) empty_graph)"
  from assms(1) have g: "g = fold (read_edge_sm atof) (children (graph_elem_sm rt)) ?g1"
    by (simp add: loadGraphML_sm_def Let_def)
  have k: "nodes g = nodes ?g1" unfolding g by simp
  have "adj_registered (fold (read_edge_sm atof) (children (graph_elem_sm rt)) ?g1)
        \<and> nodes (fold (read_edge_sm atof) (children (graph_elem_sm rt)) ?g1) = nodes ?g1"
  proof (rule fold_invariant [where P = "\<lambda>h. adj_registered h \<and> nodes h = nodes ?g1"])
    show "adj_registered ?g1 \<and> nodes ?g1 = nodes ?g1"
      using nodes_phase by simp
  next
    fix e h
    assume e: "e \<in> set (children (graph_elem_sm rt))"
      and h: "adj_registered h \<and> nodes h = nodes ?g1"
    have "adj_registered (read_edge_sm atof e h)"
      using h e assms(2) unfolding k by (intro adj_registered_read_edge_sm) auto
    with h show "adj_registered (read_edge_sm atof e h) \<and> nodes (read_edge_sm atof e h) = nodes ?g1"
      by simp
  qed
  then show ?thesis unfolding g by simp
qed

text \<open>
  C4 (as amended).  After a successful build by \<^verbatim>\<open>project1.cpp\<close>, every id in the adjacency
  structure has a node entry, and every stored length is the value \<^verbatim>\<open>haversine\<close> returns
  for the stored coordinates of the two end points.  After a successful build by
  \<^verbatim>\<open>smart_mobility_shortest_path.cpp\<close>, every adjacency entry comes from an edge element
  of the document, and its length is the length that element declares when \<^verbatim>\<open>atof\<close> reads
  it as finite (whatever its sign), otherwise the value \<^verbatim>\<open>haversine\<close> returns for the end
  points when both have a node entry, and 0 when one has not.  So the stored lengths are
  non-negative when every edge element declares a finite non-negative length, and every id
  in the adjacency structure has a node entry when every edge element names two ids that
  have a node element.  Nothing is asserted about the sign of a value that \<^verbatim>\<open>haversine\<close>
  returns.
\<close>

theorem built_graph_invariants:
  "(loadGraphML_p1 atof (Some rt) = Some g \<longrightarrow> adj_registered g \<and> lengths_great_circle g) \<and>
   (loadGraphML_sm atof (Some rt) = Some g' \<longrightarrow>
      lengths_from_edges atof (children (graph_elem_sm rt)) g' \<and>
      ((\<forall>e\<in>set (children (graph_elem_sm rt)). \<forall>s t. localName (Name e) = ''edge'' \<longrightarrow>
          Attribute e ''source'' = Some s \<longrightarrow> Attribute e ''target'' = Some t \<longrightarrow>
          declared_nonneg atof (keyIdToName g') e) \<longrightarrow> lengths_nonneg g') \<and>
      ((\<forall>e\<in>set (children (graph_elem_sm rt)). localName (Name e) = ''edge'' \<longrightarrow>
          (\<forall>s t. Attribute e ''source'' = Some s \<longrightarrow> Attribute e ''target'' = Some t \<longrightarrow>
             s \<in> dom (nodes g') \<and> t \<in> dom (nodes g'))) \<longrightarrow> adj_registered g'))"
proof (intro conjI impI)
  assume "loadGraphML_p1 atof (Some rt) = Some g"
  then show "adj_registered g" "lengths_great_circle g"
    using loadGraphML_p1_invariants [of atof rt g] by simp_all
next
  assume "loadGraphML_sm atof (Some rt) = Some g'"
  then show "lengths_from_edges atof (children (graph_elem_sm rt)) g'"
    by (rule loadGraphML_sm_lengths)
next
  assume "loadGraphML_sm atof (Some rt) = Some g'"
    and "\<forall>e\<in>set (children (graph_elem_sm rt)). \<forall>s t. localName (Name e) = ''edge'' \<longrightarrow>
          Attribute e ''source'' = Some s \<longrightarrow> Attribute e ''target'' = Some t \<longrightarrow>
          declared_nonneg atof (keyIdToName g') e"
  then show "lengths_nonneg g'"
    using lengths_nonneg_declared [OF loadGraphML_sm_lengths] by blast
next
  assume "loadGraphML_sm atof (Some rt) = Some g'"
    and "\<forall>e\<in>set (children (graph_elem_sm rt)). localName (Name e) = ''edge'' \<longrightarrow>
          (\<forall>s t. Attribute e ''source'' = Some s \<longrightarrow> Attribute e ''target'' = Some t \<longrightarrow>
             s \<in> dom (nodes g') \<and> t \<in> dom (nodes g'))"
  then show "adj_registered g'"
    by (rule loadGraphML_sm_registered)
qed

paragraph \<open>Examples\<close>

lemma oneway_doc_sm:
  "loadGraphML_sm atof_zero (Some oneway_doc) =
     Some \<lparr> nodes = [''a'' \<mapsto> \<lparr> node_id = ''a'', lat = 0, lon = 0 \<rparr>, ''b'' \<mapsto> \<lparr> node_id = ''b'', lat = 0, lon = 0 \<rparr>],
            adj = [''b'' \<mapsto> [], ''a'' \<mapsto> [(''b'', 0)]],
            edgeInfoMap = [''a'' \<mapsto> [''b'' \<mapsto> \<lparr> edge_length = 0, roadName = [] \<rparr>]],
            keyIdToName = [''d9'' \<mapsto> ''oneway''] \<rparr>"
  by (simp add: loadGraphML_sm_def oneway_doc_def oneway_edge_def builder_defs isOne_of_True haversine_same)

lemma oneway_doc_children:
  "children (graph_elem_sm oneway_doc) =
     [Elem ''node'' [(''id'', ''a'')] None [], Elem ''node'' [(''id'', ''b'')] None [], oneway_edge]"
  by (simp add: oneway_doc_def graph_elem_sm_def localName_def)

lemma detour_doc_sm: "loadGraphML_sm atof_small (Some detour_doc) = Some detour_graph"
  by (simp add: loadGraphML_sm_def detour_doc_def detour_graph_def atof_small_def builder_defs
      isOne_of_def haversine_same)

lemma detour_doc_children:
  "children (graph_elem_sm detour_doc) =
     [Elem ''node'' [(''id'', ''S'')] None [],
      Elem ''node'' [(''id'', ''G'')] None [],
      Elem ''edge'' [(''source'', ''S''), (''target'', ''X'')] None
        [Elem ''data'' [(''key'', ''d16'')] (Some ''1'') []],
      Elem ''edge'' [(''source'', ''X''), (''target'', ''G'')] None
        [Elem ''data'' [(''key'', ''d16'')] (Some ''1'') []],
      Elem ''edge'' [(''source'', ''S''), (''target'', ''G'')] None
        [Elem ''data'' [(''key'', ''d16'')] (Some ''10'') []]]"
  by (simp add: detour_doc_def graph_elem_sm_def localName_def)

text \<open>
  A declared length that \<^verbatim>\<open>atof\<close> reads as not finite is not stored: the edge of
  \<open>nonfinite_doc\<close> declares \<^verbatim>\<open>inf\<close> and is stored with the value \<^verbatim>\<open>haversine\<close> returns for
  its end points.
\<close>

lemma nonfinite_length_replaced:
  "map_option (\<lambda>g. (adj_at g ''a'', adj_at g ''b'')) (loadGraphML_sm atof_inf (Some nonfinite_doc))
     = Some ([(''b'', haversine 0 0 1 0)], [(''a'', haversine 0 0 1 0)])"
  by (simp add: loadGraphML_sm_def nonfinite_doc_def atof_inf_def builder_defs isOne_of_def Let_def)

theorem built_graph_invariants_witness:
  "adj_registered (the (loadGraphML_p1 atof_zero (Some oneway_doc))) \<and>
   lengths_great_circle (the (loadGraphML_p1 atof_zero (Some oneway_doc))) \<and>
   lengths_from_edges atof_small (children (graph_elem_sm detour_doc)) detour_graph \<and>
   lengths_nonneg detour_graph \<and>
   adj_registered (the (loadGraphML_sm atof_zero (Some oneway_doc)))"
proof -
  obtain g where g: "loadGraphML_p1 atof_zero (Some oneway_doc) = Some g"
    by (simp add: loadGraphML_p1_def Let_def)
  obtain g' where g': "loadGraphML_sm atof_zero (Some oneway_doc) = Some g'"
    by (simp add: loadGraphML_sm_def Let_def)
  have n: "''a'' \<in> dom (nodes g')" "''b'' \<in> dom (nodes g')"
    using g' unfolding oneway_doc_sm by auto
  have r: "\<forall>e\<in>set (children (graph_elem_sm oneway_doc)). localName (Name e) = ''edge'' \<longrightarrow>
          (\<forall>s t. Attribute e ''source'' = Some s \<longrightarrow> Attribute e ''target'' = Some t \<longrightarrow>
             s \<in> dom (nodes g') \<and> t \<in> dom (nodes g'))"
    unfolding oneway_doc_children using n
    by (simp add: oneway_edge_def localName_def Attribute_def)
  have k: "keyIdToName detour_graph = [''d16'' \<mapsto> ''length'']"
    by (simp add: detour_graph_def)
  have l: "\<forall>e\<in>set (children (graph_elem_sm detour_doc)). \<forall>s t. localName (Name e) = ''edge'' \<longrightarrow>
          Attribute e ''source'' = Some s \<longrightarrow> Attribute e ''target'' = Some t \<longrightarrow>
          declared_nonneg atof_small (keyIdToName detour_graph) e"
    unfolding detour_doc_children k
    by (simp add: declared_nonneg_def atof_small_def edge_vars_def edge_data_def key_name_def
        localName_def Attribute_def)
  from built_graph_invariants [of atof_zero oneway_doc g g'] g g' r
  have 1: "adj_registered g \<and> lengths_great_circle g \<and> adj_registered g'" by simp
  from built_graph_invariants [of atof_small detour_doc g detour_graph] detour_doc_sm l
  have 2: "lengths_from_edges atof_small (children (graph_elem_sm detour_doc)) detour_graph \<and>
           lengths_nonneg detour_graph" by simp
  from 1 2 show ?thesis by (simp add: g g')
qed

text \<open>
  The claim as first stated fails for the builder of
  \<^verbatim>\<open>smart_mobility_shortest_path.cpp\<close>: the edge of \<open>dangling_doc\<close> puts \<open>a\<close> and \<open>b\<close> into the
  adjacency structure though neither has a node entry, and the edge of \<open>negative_doc\<close> is
  stored with its declared length \<open>- 5\<close>.
\<close>

theorem built_graph_invariants_counterexample:
  "map_option (\<lambda>g. (adj g ''a'', adj g ''b'', nodes g ''a'', nodes g ''b''))
     (loadGraphML_sm atof_zero (Some dangling_doc))
     = Some (Some [(''b'', 0)], Some [(''a'', 0)], None, None) \<and>
   map_option (\<lambda>g. adj_at g ''a'') (loadGraphML_sm atof_minus5 (Some negative_doc))
     = Some [(''b'', - 5)]"
  by (simp add: loadGraphML_sm_def dangling_doc_def negative_doc_def atof_minus5_def builder_defs
      isOne_of_def haversine_same)

section \<open>Shortest-path engine: the loop invariant\<close>

lemma pair_le_fst: "((a::real), (x::string)) \<le> (b, y) \<Longrightarrow> a \<le> b"
  by (auto simp: less_eq_prod_def)

lemma pq_top_props:
  assumes "pq s \<noteq> []" "Min (set (pq s)) = (cd, u)"
  shows "(cd, u) \<in> set (pq s)" "\<And>d y. (d, y) \<in> set (pq s) \<Longrightarrow> cd \<le> d"
proof -
  from assms show "(cd, u) \<in> set (pq s)"
    using Min_in [of "set (pq s)"] by simp
  fix d y assume "(d, y) \<in> set (pq s)"
  then have "Min (set (pq s)) \<le> (d, y)" by (intro Min_le) simp_all
  with assms(2) show "cd \<le> d" by (auto dest: pair_le_fst)
qed

lemma init_head_inv: "head_inv ec g start goal (init_state g start)"
proof -
  let ?s = "init_state g start"
  have q: "pq ?s = [(0, start)]" and p: "prev_map ?s = Map.empty"
    by (simp_all add: init_state_def)
  have r: "reached start ?s v \<longleftrightarrow> v = start" for v
    by (simp add: reached_def p)
  have d: "dist_at ?s v = dist0 g start v" for v
    by (auto simp: dist_at_def init_state_def dist0_def split: option.splits)
  have z: "dist0 g start start = 0" by (simp add: dist0_def)
  have ns: "\<not> settled start ?s x" for x
    by (auto simp: settled_def r d q z)
  show ?thesis
    unfolding head_inv_def base_inv_def
    by (simp add: r d ns q p z)
qed

lemma base_invD:
  assumes "base_inv ec g start goal s"
  shows "distinct (pq s)"
    and "\<And>d v. (d, v) \<in> set (pq s) \<Longrightarrow> reached start s v"
    and "\<And>d v. (d, v) \<in> set (pq s) \<Longrightarrow> dist_at s v \<le> d"
    and "\<And>d v. (d, v) \<in> set (pq s) \<Longrightarrow> 0 \<le> d"
    and "dist_at s start = 0"
    and "prev_map s start = None"
    and "\<And>v. \<not> reached start s v \<Longrightarrow> dist_at s v = dist0 g start v"
    and "\<And>v. reached start s v \<Longrightarrow> v \<noteq> start \<Longrightarrow>
           \<exists>x w. prev_map s v = Some x \<and> settled start s x \<and> (v, w) \<in> set (adj_at g x) \<and>
                 dist_at s v = dist_at s x + ec x v w \<and> dist_at s v < sentinel"
    and "\<And>x d y. settled start s x \<Longrightarrow> (d, y) \<in> set (pq s) \<Longrightarrow> dist_at s x \<le> d"
    and "\<And>x. settled start s x \<Longrightarrow>
           \<exists>p. bchain (prev_map s) start x p \<and> (\<forall>y\<in>set p. settled start s y) \<and>
               rpath ec g start p (dist_at s x)"
    and "reached start s goal \<Longrightarrow> (dist_at s goal, goal) \<in> set (pq s)"
  using assms unfolding base_inv_def by blast+

lemma base_invI:
  assumes "distinct (pq s)"
    and "\<And>d v. (d, v) \<in> set (pq s) \<Longrightarrow> reached start s v \<and> dist_at s v \<le> d \<and> 0 \<le> d"
    and "dist_at s start = 0"
    and "prev_map s start = None"
    and "\<And>v. \<not> reached start s v \<Longrightarrow> dist_at s v = dist0 g start v"
    and "\<And>v. reached start s v \<Longrightarrow> v \<noteq> start \<Longrightarrow>
           \<exists>x w. prev_map s v = Some x \<and> settled start s x \<and> (v, w) \<in> set (adj_at g x) \<and>
                 dist_at s v = dist_at s x + ec x v w \<and> dist_at s v < sentinel"
    and "\<And>x d y. settled start s x \<Longrightarrow> (d, y) \<in> set (pq s) \<Longrightarrow> dist_at s x \<le> d"
    and "\<And>x. settled start s x \<Longrightarrow>
           \<exists>p. bchain (prev_map s) start x p \<and> (\<forall>y\<in>set p. settled start s y) \<and>
               rpath ec g start p (dist_at s x)"
    and "reached start s goal \<Longrightarrow> (dist_at s goal, goal) \<in> set (pq s)"
  shows "base_inv ec g start goal s"
  unfolding base_inv_def using assms by blast

lemma bchain_upd:
  "bchain pm start x p \<Longrightarrow> v \<notin> set p \<Longrightarrow> bchain (pm(v \<mapsto> u)) start x p"
proof (induction rule: bchain.induct)
  case bchain_start
  show ?case by (rule bchain.bchain_start)
next
  case (bchain_step y z p)
  then show ?case by (intro bchain.bchain_step) auto
qed

lemma bchain_hd: "bchain pm start x p \<Longrightarrow> \<exists>q. p = x # q"
  by (induction rule: bchain.induct) simp_all

lemma mid_invD:
  assumes "mid_inv ec g start goal cd u rem s"
  shows "base_inv ec g start goal s"
    and "settled start s u"
    and "dist_at s u = cd"
    and "0 \<le> cd"
    and "\<And>x. settled start s x \<Longrightarrow> dist_at s x \<le> cd"
    and "set rem \<subseteq> set (adj_at g u)"
    and "\<And>x v w. settled start s x \<Longrightarrow> (v, w) \<in> set (adj_at g x) \<Longrightarrow>
           \<not> (x = u \<and> (v, w) \<in> set rem) \<Longrightarrow> dist_at s v \<le> dist_at s x + ec x v w"
  using assms unfolding mid_inv_def by blast+

lemma mid_invI:
  assumes "base_inv ec g start goal s"
    and "settled start s u"
    and "dist_at s u = cd"
    and "0 \<le> cd"
    and "\<And>x. settled start s x \<Longrightarrow> dist_at s x \<le> cd"
    and "set rem \<subseteq> set (adj_at g u)"
    and "\<And>x v w. settled start s x \<Longrightarrow> (v, w) \<in> set (adj_at g x) \<Longrightarrow>
           \<not> (x = u \<and> (v, w) \<in> set rem) \<Longrightarrow> dist_at s v \<le> dist_at s x + ec x v w"
  shows "mid_inv ec g start goal cd u rem s"
  unfolding mid_inv_def using assms by blast

lemma relax_keep:
  assumes inv: "mid_inv ec g start goal cd u ((v, w) # es) s"
    and le: "\<not> dist_at s v > cd + ec u v w"
  shows "mid_inv ec g start goal cd u es s"
proof (rule mid_invI)
  note m = mid_invD [OF inv]
  show "base_inv ec g start goal s" "settled start s u" "dist_at s u = cd" "0 \<le> cd"
    by (rule m)+
  show "dist_at s x \<le> cd" if "settled start s x" for x
    using that by (rule m(5))
  show "set es \<subseteq> set (adj_at g u)" using m(6) by simp
  show "dist_at s v' \<le> dist_at s x + ec x v' w'"
    if "settled start s x" "(v', w') \<in> set (adj_at g x)" "\<not> (x = u \<and> (v', w') \<in> set es)"
    for x v' w'
  proof (cases "x = u \<and> (v', w') = (v, w)")
    case True
    with le m(3) show ?thesis by simp
  next
    case False
    with that(3) have "\<not> (x = u \<and> (v', w') \<in> set ((v, w) # es))" by auto
    with that(1,2) show ?thesis by (rule m(7))
  qed
qed

lemma relax_update:
  assumes nn: "nonneg_costs ec g" and inv: "mid_inv ec g start goal cd u ((v, w) # es) s"
    and gt: "dist_at s v > cd + ec u v w"
    and s': "s' = s\<lparr> dist_map := (dist_map s)(v \<mapsto> cd + ec u v w),
                      prev_map := (prev_map s)(v \<mapsto> u),
                      pq := pq s @ [(cd + ec u v w, v)] \<rparr>"
  shows "mid_inv ec g start goal cd u es s' \<and> (\<forall>x. settled start s' x \<longleftrightarrow> settled start s x)"
proof -
  note m = mid_invD [OF inv]
  note b = base_invD [OF m(1)]
  let ?c = "cd + ec u v w"
  have edge: "(v, w) \<in> set (adj_at g u)" using m(6) by simp
  with nn have c0: "0 \<le> ec u v w" unfolding nonneg_costs_def by blast
  then have cdc: "cd \<le> ?c" by simp
  have D': "dist_at s' y = (if y = v then ?c else dist_at s y)" for y
    by (simp add: s' dist_at_def)
  have P': "prev_map s' y = (if y = v then Some u else prev_map s y)" for y
    by (simp add: s')
  have Q': "set (pq s') = insert (?c, v) (set (pq s))"
    by (simp add: s')
  have R': "reached start s' y \<longleftrightarrow> y = v \<or> reached start s y" for y
    by (auto simp: reached_def P')
  have vu: "v \<noteq> u" using gt m(3) cdc by auto
  have vs: "v \<noteq> start" using gt b(5) cdc m(4) by auto
  have nsv: "\<not> settled start s v"
  proof
    assume "settled start s v"
    then have "dist_at s v \<le> cd" by (rule m(5))
    with gt cdc show False by simp
  qed
  have fresh: "(?c, v) \<notin> set (pq s)"
  proof
    assume "(?c, v) \<in> set (pq s)"
    then have "dist_at s v \<le> ?c" by (rule b(3))
    with gt show False by simp
  qed
  have S': "settled start s' x \<longleftrightarrow> settled start s x" for x
  proof (cases "x = v")
    case True
    then show ?thesis using nsv by (simp add: settled_def D' Q')
  next
    case False
    then show ?thesis by (simp add: settled_def D' Q' R')
  qed
  have sx: "x \<noteq> v" if "settled start s x" for x using that nsv by auto
  have dv: "dist_at s v \<le> sentinel"
  proof (cases "reached start s v")
    case True
    with vs b(8) [of v] show ?thesis by fastforce
  next
    case False
    then have "dist_at s v = dist0 g start v" by (rule b(7))
    moreover have "0 < dist_at s v" using gt cdc m(4) by simp
    ultimately show ?thesis by (auto simp: dist0_def split: if_splits)
  qed
  have base: "base_inv ec g start goal s'"
  proof (rule base_invI)
    show "distinct (pq s')" using b(1) fresh by (simp add: s')
    show "reached start s' y \<and> dist_at s' y \<le> d \<and> 0 \<le> d" if "(d, y) \<in> set (pq s')" for d y
    proof (cases "(d, y) = (?c, v)")
      case True
      then show ?thesis using cdc m(4) by (simp add: R' D')
    next
      case False
      with that have o: "(d, y) \<in> set (pq s)" by (auto simp: Q')
      from b(2) [OF o] b(3) [OF o] b(4) [OF o] gt show ?thesis
        by (auto simp: R' D')
    qed
    show "dist_at s' start = 0" using vs b(5) by (simp add: D')
    show "prev_map s' start = None" using vs b(6) by (simp add: P')
    show "dist_at s' y = dist0 g start y" if "\<not> reached start s' y" for y
      using that b(7) [of y] by (simp add: R' D')
    show "\<exists>x w. prev_map s' y = Some x \<and> settled start s' x \<and> (y, w) \<in> set (adj_at g x) \<and>
            dist_at s' y = dist_at s' x + ec x y w \<and> dist_at s' y < sentinel"
      if "reached start s' y" "y \<noteq> start" for y
    proof (cases "y = v")
      case True
      have "prev_map s' v = Some u \<and> settled start s' u \<and> (v, w) \<in> set (adj_at g u) \<and>
            dist_at s' v = dist_at s' u + ec u v w \<and> dist_at s' v < sentinel"
        using m(2,3) edge vu gt dv by (simp add: P' S' D')
      with True show ?thesis by blast
    next
      case False
      with that have "reached start s y" by (simp add: R')
      from b(8) [OF this that(2)] obtain x w' where x: "prev_map s y = Some x" "settled start s x"
        "(y, w') \<in> set (adj_at g x)" "dist_at s y = dist_at s x + ec x y w'" "dist_at s y < sentinel"
        by blast
      from sx [OF x(2)] False x show ?thesis by (auto simp: P' S' D')
    qed
    show "dist_at s' x \<le> d" if "settled start s' x" "(d, y) \<in> set (pq s')" for x d y
    proof -
      from that(1) have sx': "settled start s x" by (simp add: S')
      show ?thesis
      proof (cases "(d, y) = (?c, v)")
        case True
        with m(5) [OF sx'] cdc sx [OF sx'] show ?thesis by (simp add: D')
      next
        case False
        with that(2) have "(d, y) \<in> set (pq s)" by (auto simp: Q')
        from b(9) [OF sx' this] sx [OF sx'] show ?thesis by (simp add: D')
      qed
    qed
    show "\<exists>p. bchain (prev_map s') start x p \<and> (\<forall>y\<in>set p. settled start s' y) \<and>
            rpath ec g start p (dist_at s' x)" if "settled start s' x" for x
    proof -
      from that have sx': "settled start s x" by (simp add: S')
      from b(10) [OF sx'] obtain p where p: "bchain (prev_map s) start x p"
        "\<forall>y\<in>set p. settled start s y" "rpath ec g start p (dist_at s x)" by blast
      from p(2) nsv have "v \<notin> set p" by blast
      with p(1) have "bchain ((prev_map s)(v \<mapsto> u)) start x p" by (rule bchain_upd)
      then have "bchain (prev_map s') start x p" by (simp add: s')
      with p(2,3) sx [OF sx'] show ?thesis by (auto simp: S' D')
    qed
    show "(dist_at s' goal, goal) \<in> set (pq s')" if "reached start s' goal"
    proof (cases "goal = v")
      case True
      then show ?thesis by (simp add: D' Q')
    next
      case False
      with that have "reached start s goal" by (simp add: R')
      then have "(dist_at s goal, goal) \<in> set (pq s)" by (rule b(11))
      with False show ?thesis by (simp add: D' Q')
    qed
  qed
  have "mid_inv ec g start goal cd u es s'"
  proof (rule mid_invI)
    show "base_inv ec g start goal s'" by (rule base)
    show "settled start s' u" using m(2) by (simp add: S')
    show "dist_at s' u = cd" using m(3) vu by (simp add: D')
    show "0 \<le> cd" by (rule m(4))
    show "dist_at s' x \<le> cd" if "settled start s' x" for x
    proof -
      from that have sx': "settled start s x" by (simp add: S')
      from m(5) [OF sx'] sx [OF sx'] show ?thesis by (simp add: D')
    qed
    show "set es \<subseteq> set (adj_at g u)" using m(6) by simp
    show "dist_at s' v' \<le> dist_at s' x + ec x v' w'"
      if "settled start s' x" "(v', w') \<in> set (adj_at g x)" "\<not> (x = u \<and> (v', w') \<in> set es)"
      for x v' w'
    proof -
      from that(1) have sx': "settled start s x" by (simp add: S')
      have dx: "dist_at s' x = dist_at s x" using sx [OF sx'] by (simp add: D')
      show ?thesis
      proof (cases "x = u \<and> (v', w') = (v, w)")
        case True
        then show ?thesis using m(3) vu by (simp add: D')
      next
        case False
        with that(3) have "\<not> (x = u \<and> (v', w') \<in> set ((v, w) # es))" by auto
        from m(7) [OF sx' that(2) this] have o: "dist_at s v' \<le> dist_at s x + ec x v' w'" .
        have "dist_at s' v' \<le> dist_at s v'" using gt by (simp add: D')
        with o dx show ?thesis by simp
      qed
    qed
  qed
  with S' show ?thesis by blast
qed

lemma relax_step:
  assumes nn: "nonneg_costs ec g" and inv: "mid_inv ec g start goal cd u (e # es) s"
  shows "mid_inv ec g start goal cd u es (relax ec cd u e s) \<and>
         (\<forall>x. settled start (relax ec cd u e s) x \<longleftrightarrow> settled start s x)"
proof -
  obtain v w where e: "e = (v, w)" by (cases e)
  show ?thesis
  proof (cases "dist_at s v > cd + ec u v w")
    case True
    then have r: "relax ec cd u e s = s\<lparr> dist_map := (dist_map s)(v \<mapsto> cd + ec u v w),
                      prev_map := (prev_map s)(v \<mapsto> u),
                      pq := pq s @ [(cd + ec u v w, v)] \<rparr>"
      by (simp add: relax_def e Let_def)
    from relax_update [OF nn inv [unfolded e] True r] show ?thesis .
  next
    case False
    then have r: "relax ec cd u e s = s" by (simp add: relax_def e Let_def)
    from relax_keep [OF inv [unfolded e] False] show ?thesis by (simp add: r)
  qed
qed

lemma relax_all:
  assumes nn: "nonneg_costs ec g"
  shows "mid_inv ec g start goal cd u es s \<Longrightarrow>
         mid_inv ec g start goal cd u [] (fold (relax ec cd u) es s) \<and>
         (\<forall>x. settled start (fold (relax ec cd u) es s) x \<longleftrightarrow> settled start s x)"
proof (induction es arbitrary: s)
  case Nil
  then show ?case by simp
next
  case (Cons e es)
  from relax_step [OF nn Cons.prems]
  have 1: "mid_inv ec g start goal cd u es (relax ec cd u e s)"
    and 2: "\<forall>x. settled start (relax ec cd u e s) x \<longleftrightarrow> settled start s x" by blast+
  from Cons.IH [OF 1] 2 show ?case by simp
qed

lemma mid_done: "mid_inv ec g start goal cd u [] s \<Longrightarrow> head_inv ec g start goal s"
  unfolding mid_inv_def head_inv_def by auto

lemma relax_noop:
  "(\<And>v w. (v, w) \<in> set es \<Longrightarrow> \<not> dist_at s v > cd + ec u v w) \<Longrightarrow>
     fold (relax ec cd u) es s = s"
proof (induction es)
  case Nil
  then show ?case by simp
next
  case (Cons e es)
  obtain v w where e: "e = (v, w)" by (cases e)
  have "relax ec cd u e s = s" using Cons.prems [of v w] by (simp add: relax_def e Let_def)
  with Cons show ?case by simp
qed

lemma head_invD:
  assumes "head_inv ec g start goal s"
  shows "base_inv ec g start goal s"
    and "\<And>x v w. settled start s x \<Longrightarrow> (v, w) \<in> set (adj_at g x) \<Longrightarrow>
        dist_at s v \<le> dist_at s x + ec x v w"
  using assms unfolding head_inv_def by blast+

lemma pop_fresh:
  assumes inv: "head_inv ec g start goal s" and ne: "pq s \<noteq> []"
    and top: "Min (set (pq s)) = (cd, u)" and ug: "u \<noteq> goal" and fr: "dist_at s u = cd"
    and s1: "s1 = s\<lparr> pq := remove1 (cd, u) (pq s) \<rparr>"
  shows "mid_inv ec g start goal cd u (adj_at g u) s1 \<and>
         (\<forall>x. settled start s1 x \<longleftrightarrow> settled start s x \<or> x = u) \<and> \<not> settled start s u"
proof -
  note h = head_invD [OF inv]
  note b = base_invD [OF h(1)]
  note t = pq_top_props [OF ne top]
  have D1: "dist_at s1 y = dist_at s y" for y by (simp add: s1 dist_at_def)
  have P1: "prev_map s1 = prev_map s" by (simp add: s1)
  have R1: "reached start s1 y \<longleftrightarrow> reached start s y" for y by (simp add: reached_def P1)
  have Q1: "set (pq s1) = set (pq s) - {(cd, u)}" using b(1) by (simp add: s1)
  have ru: "reached start s u" using t(1) by (rule b(2))
  have nsu: "\<not> settled start s u" using t(1) fr by (simp add: settled_def)
  have S1: "settled start s1 x \<longleftrightarrow> settled start s x \<or> x = u" for x
    using ru fr by (auto simp: settled_def D1 R1 Q1)
  have cd0: "0 \<le> cd" using t(1) by (rule b(4))
  have base: "base_inv ec g start goal s1"
  proof (rule base_invI)
    show "distinct (pq s1)" using b(1) by (simp add: s1)
    show "reached start s1 y \<and> dist_at s1 y \<le> d \<and> 0 \<le> d" if "(d, y) \<in> set (pq s1)" for d y
    proof -
      from that have o: "(d, y) \<in> set (pq s)" by (simp add: Q1)
      from b(2) [OF o] b(3) [OF o] b(4) [OF o] show ?thesis by (simp add: R1 D1)
    qed
    show "dist_at s1 start = 0" using b(5) by (simp add: D1)
    show "prev_map s1 start = None" using b(6) by (simp add: P1)
    show "dist_at s1 y = dist0 g start y" if "\<not> reached start s1 y" for y
      using that b(7) [of y] by (simp add: R1 D1)
    show "\<exists>x w. prev_map s1 y = Some x \<and> settled start s1 x \<and> (y, w) \<in> set (adj_at g x) \<and>
            dist_at s1 y = dist_at s1 x + ec x y w \<and> dist_at s1 y < sentinel"
      if "reached start s1 y" "y \<noteq> start" for y
    proof -
      from that have "reached start s y" by (simp add: R1)
      from b(8) [OF this that(2)] show ?thesis by (auto simp: P1 S1 D1)
    qed
    show "dist_at s1 x \<le> d" if "settled start s1 x" "(d, y) \<in> set (pq s1)" for x d y
    proof -
      from that(2) have o: "(d, y) \<in> set (pq s)" by (simp add: Q1)
      show ?thesis
      proof (cases "x = u")
        case True
        with t(2) [OF o] fr show ?thesis by (simp add: D1)
      next
        case False
        with that(1) have "settled start s x" by (simp add: S1)
        from b(9) [OF this o] show ?thesis by (simp add: D1)
      qed
    qed
    show "\<exists>p. bchain (prev_map s1) start x p \<and> (\<forall>y\<in>set p. settled start s1 y) \<and>
            rpath ec g start p (dist_at s1 x)" if "settled start s1 x" for x
    proof (cases "settled start s x")
      case True
      from b(10) [OF True] show ?thesis by (auto simp: P1 S1 D1)
    next
      case False
      with that have xu: "x = u" by (simp add: S1)
      show ?thesis
      proof (cases "u = start")
        case True
        have "bchain (prev_map s1) start start [start]" by (rule bchain_start)
        moreover have "rpath ec g start [start] (dist_at s1 start)"
          using b(5) rpath_start [of ec g start] by (simp add: D1)
        ultimately show ?thesis using xu True by (auto simp: S1)
      next
        case False
        from b(8) [OF ru False] obtain y w where y: "prev_map s u = Some y" "settled start s y"
          "(u, w) \<in> set (adj_at g y)" "dist_at s u = dist_at s y + ec y u w" by blast
        from b(10) [OF y(2)] obtain p where p: "bchain (prev_map s) start y p"
          "\<forall>z\<in>set p. settled start s z" "rpath ec g start p (dist_at s y)" by blast
        from bchain_hd [OF p(1)] obtain q where q: "p = y # q" by blast
        have "bchain (prev_map s1) start u (u # p)"
          using False y(1) p(1) by (simp add: P1 bchain_step)
        moreover have "rpath ec g start (u # p) (dist_at s1 u)"
          using rpath_step [OF p(3) [unfolded q] y(3)] y(4) by (simp add: q D1)
        moreover have "\<forall>z\<in>set (u # p). settled start s1 z" using p(2) by (simp add: S1)
        ultimately show ?thesis using xu by blast
      qed
    qed
    show "(dist_at s1 goal, goal) \<in> set (pq s1)" if "reached start s1 goal"
    proof -
      from that have "reached start s goal" by (simp add: R1)
      then have "(dist_at s goal, goal) \<in> set (pq s)" by (rule b(11))
      with ug show ?thesis by (simp add: D1 Q1)
    qed
  qed
  have "mid_inv ec g start goal cd u (adj_at g u) s1"
  proof (rule mid_invI)
    show "base_inv ec g start goal s1" by (rule base)
    show "settled start s1 u" by (simp add: S1)
    show "dist_at s1 u = cd" using fr by (simp add: D1)
    show "0 \<le> cd" by (rule cd0)
    show "dist_at s1 x \<le> cd" if "settled start s1 x" for x
    proof (cases "x = u")
      case True
      with fr show ?thesis by (simp add: D1)
    next
      case False
      with that have "settled start s x" by (simp add: S1)
      from b(9) [OF this t(1)] show ?thesis by (simp add: D1)
    qed
    show "set (adj_at g u) \<subseteq> set (adj_at g u)" by simp
    show "dist_at s1 v \<le> dist_at s1 x + ec x v w"
      if "settled start s1 x" "(v, w) \<in> set (adj_at g x)" "\<not> (x = u \<and> (v, w) \<in> set (adj_at g u))"
      for x v w
    proof -
      from that have "settled start s x" by (auto simp: S1)
      from h(2) [OF this that(2)] show ?thesis by (simp add: D1)
    qed
  qed
  with S1 nsu show ?thesis by blast
qed

lemma pop_stale:
  assumes inv: "head_inv ec g start goal s" and ne: "pq s \<noteq> []"
    and top: "Min (set (pq s)) = (cd, u)" and ug: "u \<noteq> goal" and st: "dist_at s u \<noteq> cd"
    and s1: "s1 = s\<lparr> pq := remove1 (cd, u) (pq s) \<rparr>"
  shows "head_inv ec g start goal s1 \<and> (\<forall>x. settled start s1 x \<longleftrightarrow> settled start s x) \<and>
         fold (relax ec cd u) (adj_at g u) s1 = s1"
proof -
  note h = head_invD [OF inv]
  note b = base_invD [OF h(1)]
  note t = pq_top_props [OF ne top]
  have D1: "dist_at s1 y = dist_at s y" for y by (simp add: s1 dist_at_def)
  have P1: "prev_map s1 = prev_map s" by (simp add: s1)
  have R1: "reached start s1 y \<longleftrightarrow> reached start s y" for y by (simp add: reached_def P1)
  have Q1: "set (pq s1) = set (pq s) - {(cd, u)}" using b(1) by (simp add: s1)
  have ru: "reached start s u" using t(1) by (rule b(2))
  have lt: "dist_at s u < cd" using b(3) [OF t(1)] st by simp
  have su: "settled start s u"
  proof -
    have "(dist_at s u, u) \<notin> set (pq s)"
    proof
      assume "(dist_at s u, u) \<in> set (pq s)"
      from t(2) [OF this] lt show False by simp
    qed
    with ru show ?thesis by (simp add: settled_def)
  qed
  have S1: "settled start s1 x \<longleftrightarrow> settled start s x" for x
    using st by (auto simp: settled_def D1 R1 Q1)
  have base: "base_inv ec g start goal s1"
  proof (rule base_invI)
    show "distinct (pq s1)" using b(1) by (simp add: s1)
    show "reached start s1 y \<and> dist_at s1 y \<le> d \<and> 0 \<le> d" if "(d, y) \<in> set (pq s1)" for d y
    proof -
      from that have o: "(d, y) \<in> set (pq s)" by (simp add: Q1)
      from b(2) [OF o] b(3) [OF o] b(4) [OF o] show ?thesis by (simp add: R1 D1)
    qed
    show "dist_at s1 start = 0" using b(5) by (simp add: D1)
    show "prev_map s1 start = None" using b(6) by (simp add: P1)
    show "dist_at s1 y = dist0 g start y" if "\<not> reached start s1 y" for y
      using that b(7) [of y] by (simp add: R1 D1)
    show "\<exists>x w. prev_map s1 y = Some x \<and> settled start s1 x \<and> (y, w) \<in> set (adj_at g x) \<and>
            dist_at s1 y = dist_at s1 x + ec x y w \<and> dist_at s1 y < sentinel"
      if "reached start s1 y" "y \<noteq> start" for y
    proof -
      from that have "reached start s y" by (simp add: R1)
      from b(8) [OF this that(2)] show ?thesis by (simp add: P1 S1 D1)
    qed
    show "dist_at s1 x \<le> d" if "settled start s1 x" "(d, y) \<in> set (pq s1)" for x d y
    proof -
      from that(2) have o: "(d, y) \<in> set (pq s)" by (simp add: Q1)
      from that(1) have "settled start s x" by (simp add: S1)
      from b(9) [OF this o] show ?thesis by (simp add: D1)
    qed
    show "\<exists>p. bchain (prev_map s1) start x p \<and> (\<forall>y\<in>set p. settled start s1 y) \<and>
            rpath ec g start p (dist_at s1 x)" if "settled start s1 x" for x
    proof -
      from that have "settled start s x" by (simp add: S1)
      from b(10) [OF this] show ?thesis by (simp add: P1 S1 D1)
    qed
    show "(dist_at s1 goal, goal) \<in> set (pq s1)" if "reached start s1 goal"
    proof -
      from that have "reached start s goal" by (simp add: R1)
      then have "(dist_at s goal, goal) \<in> set (pq s)" by (rule b(11))
      with ug show ?thesis by (simp add: D1 Q1)
    qed
  qed
  have hd: "head_inv ec g start goal s1"
    unfolding head_inv_def using base h(2) by (simp add: S1 D1)
  have "fold (relax ec cd u) (adj_at g u) s1 = s1"
  proof (rule relax_noop)
    fix v w assume "(v, w) \<in> set (adj_at g u)"
    from h(2) [OF su this] lt show "\<not> dist_at s1 v > cd + ec u v w" by (simp add: D1)
  qed
  with hd S1 show ?thesis by blast
qed

lemma adj_at_nonempty_dom: "e \<in> set (adj_at g y) \<Longrightarrow> y \<in> dom (adj g)"
  by (cases "adj g y") (auto simp: adj_at_def)

lemma settled_touched:
  assumes "base_inv ec g start goal s" "settled start s x"
  shows "x \<in> touched g start"
proof (cases "x = start")
  case True
  then show ?thesis by (simp add: touched_def)
next
  case False
  from assms(2) have "reached start s x" by (simp add: settled_def)
  from base_invD(8) [OF assms(1) this False] obtain y w where e: "(x, w) \<in> set (adj_at g y)" by blast
  then have "y \<in> dom (adj g)" by (rule adj_at_nonempty_dom)
  moreover from e have "x \<in> fst ` set (adj_at g y)" by force
  ultimately show ?thesis unfolding touched_def by blast
qed

lemma finite_touched: "finite (dom (adj g)) \<Longrightarrow> finite (touched g start)"
  by (simp add: touched_def)

lemma loop_total:
  assumes fin: "finite (dom (adj g))" and nn: "nonneg_costs ec g"
  shows "head_inv ec g start goal s \<Longrightarrow>
         \<exists>t. dijkstra_loop ec g goal s = Some t \<and> loop_exit ec g start goal t"
proof (induction s rule: wf_induct_rule
    [OF wf_measures [of "[\<lambda>s. card (touched g start - {x. settled start s x}), \<lambda>s. length (pq s)]"]])
  case (1 s)
  note inv = 1(2)
  show ?case
  proof (cases "pq s = []")
    case True
    then have "dijkstra_loop ec g goal s = Some s" by (subst dijkstra_loop.simps) simp
    moreover have "loop_exit ec g start goal s" using True inv by (simp add: loop_exit_def)
    ultimately show ?thesis by blast
  next
    case ne: False
    obtain cd u where top: "Min (set (pq s)) = (cd, u)" by (cases "Min (set (pq s))")
    let ?s1 = "s\<lparr> pq := remove1 (cd, u) (pq s) \<rparr>"
    show ?thesis
    proof (cases "u = goal")
      case True
      have "dijkstra_loop ec g goal s = Some ?s1"
        using ne top True by (subst dijkstra_loop.simps) simp
      moreover have "loop_exit ec g start goal ?s1"
        unfolding loop_exit_def using inv ne top True by blast
      ultimately show ?thesis by blast
    next
      case ug: False
      let ?s2 = "fold (relax ec cd u) (adj_at g u) ?s1"
      have step: "dijkstra_loop ec g goal s = dijkstra_loop ec g goal ?s2"
        using ne top ug by (subst dijkstra_loop.simps) simp
      have "head_inv ec g start goal ?s2 \<and>
            (?s2, s) \<in> measures [\<lambda>s. card (touched g start - {x. settled start s x}), \<lambda>s. length (pq s)]"
      proof (cases "dist_at s u = cd")
        case True
        from pop_fresh [OF inv ne top ug True refl]
        have m: "mid_inv ec g start goal cd u (adj_at g u) ?s1"
          and s1: "\<forall>x. settled start ?s1 x \<longleftrightarrow> settled start s x \<or> x = u"
          and nsu: "\<not> settled start s u" by blast+
        from relax_all [OF nn m]
        have m2: "mid_inv ec g start goal cd u [] ?s2"
          and s2: "\<forall>x. settled start ?s2 x \<longleftrightarrow> settled start ?s1 x" by blast+
        have h2: "head_inv ec g start goal ?s2" using m2 by (rule mid_done)
        have "settled start ?s2 u" using s1 s2 by simp
        then have ut: "u \<in> touched g start"
          by (rule settled_touched [OF mid_invD(1) [OF m2]])
        have "touched g start - {x. settled start ?s2 x} \<subset> touched g start - {x. settled start s x}"
          using s1 s2 nsu ut by auto
        then have "card (touched g start - {x. settled start ?s2 x})
                   < card (touched g start - {x. settled start s x})"
          using finite_touched [OF fin] by (intro psubset_card_mono) simp_all
        with h2 show ?thesis by simp
      next
        case False
        from pop_stale [OF inv ne top ug False refl]
        have h1: "head_inv ec g start goal ?s1"
          and s1: "\<forall>x. settled start ?s1 x \<longleftrightarrow> settled start s x"
          and id: "?s2 = ?s1" by blast+
        have "(cd, u) \<in> set (pq s)" using pq_top_props(1) [OF ne top] .
        then have "length (pq ?s1) < length (pq s)"
          using ne by (simp add: length_remove1)
        moreover have "{x. settled start ?s1 x} = {x. settled start s x}" using s1 by simp
        ultimately show ?thesis unfolding id using h1 by simp
      qed
      then have "\<exists>t. dijkstra_loop ec g goal ?s2 = Some t \<and> loop_exit ec g start goal t"
        using 1(1) by blast
      with step show ?thesis by simp
    qed
  qed
qed

lemma walk_back_bchain:
  "bchain pm start v p \<Longrightarrow> walk_back pm start v acc = Some (acc @ p)"
proof (induction arbitrary: acc rule: bchain.induct)
  case bchain_start
  show ?case by (subst walk_back.simps) simp
next
  case (bchain_step v u p)
  have "walk_back pm start v acc = walk_back pm start u (acc @ [v])"
    using bchain_step(1,2) by (subst walk_back.simps) (simp add: prev_at_def)
  also have "\<dots> = Some ((acc @ [v]) @ p)" by (rule bchain_step.IH)
  finally show ?case by simp
qed

lemma bchain_det: "bchain pm start x p \<Longrightarrow> bchain pm start x q \<Longrightarrow> p = q"
proof (induction arbitrary: q rule: bchain.induct)
  case bchain_start
  from bchain_start show ?case by (cases rule: bchain.cases) simp_all
next
  case (bchain_step v u p)
  note hyps = bchain_step.hyps and IH = bchain_step.IH
  from bchain_step.prems show ?case
  proof (cases rule: bchain.cases)
    case bchain_start
    with hyps(1) show ?thesis by simp
  next
    case (bchain_step u' q')
    with hyps(2) have "u' = u" by simp
    with bchain_step IH [of q'] show ?thesis by simp
  qed
qed

lemma bchain_suffix:
  "bchain pm start x p \<Longrightarrow> y \<in> set p \<Longrightarrow> \<exists>q. bchain pm start y q \<and> length q \<le> length p"
proof (induction rule: bchain.induct)
  case bchain_start
  then show ?case using bchain.bchain_start [of pm start] by auto
next
  case (bchain_step v u p)
  show ?case
  proof (cases "y = v")
    case True
    have "bchain pm start v (v # p)" using bchain_step.hyps by (rule bchain.bchain_step)
    with True show ?thesis by blast
  next
    case False
    with bchain_step.prems have "y \<in> set p" by simp
    from bchain_step.IH [OF this] show ?thesis by auto
  qed
qed

lemma bchain_distinct: "bchain pm start x p \<Longrightarrow> distinct p"
proof (induction rule: bchain.induct)
  case bchain_start
  show ?case by simp
next
  case (bchain_step v u p)
  have "v \<notin> set p"
  proof
    assume "v \<in> set p"
    from bchain_suffix [OF bchain_step.hyps(3) this] obtain q where
      q: "bchain pm start v q" "length q \<le> length p" by blast
    have "bchain pm start v (v # p)" using bchain_step.hyps by (rule bchain.bchain_step)
    from bchain_det [OF this q(1)] q(2) show False by auto
  qed
  with bchain_step.IH show ?case by simp
qed

lemma bchain_ends: "bchain pm start x p \<Longrightarrow> hd p = x \<and> last p = start"
  by (induction rule: bchain.induct) (auto dest: bchain_hd)

lemma path_lower_bound:
  assumes inv: "head_inv ec g start goal s" and nn: "nonneg_costs ec g"
    and reg: "adj_registered g"
  shows "rpath ec g start q c \<Longrightarrow> c < sentinel \<Longrightarrow>
         (reached start s (hd q) \<and> dist_at s (hd q) \<le> c) \<or>
         (\<exists>y. (dist_at s y, y) \<in> set (pq s) \<and> dist_at s y \<le> c)"
proof (induction rule: rpath.induct)
  case rpath_start
  note h = head_invD [OF inv]
  note b = base_invD [OF h(1)]
  show ?case using b(5) by (simp add: reached_def)
next
  case (rpath_step u p d v w)
  note h = head_invD [OF inv]
  note b = base_invD [OF h(1)]
  from nn rpath_step(2) have c0: "0 \<le> ec u v w" unfolding nonneg_costs_def by blast
  with rpath_step(4) have "d < sentinel" by simp
  from rpath_step.IH [OF this] show ?case
  proof
    assume a: "reached start s (hd (u # p)) \<and> dist_at s (hd (u # p)) \<le> d"
    then have ru: "reached start s u" and du: "dist_at s u \<le> d" by simp_all
    show ?thesis
    proof (cases "(dist_at s u, u) \<in> set (pq s)")
      case True
      with du c0 show ?thesis by force
    next
      case False
      with ru have su: "settled start s u" by (simp add: settled_def)
      from h(2) [OF su rpath_step(2)] du have dv: "dist_at s v \<le> d + ec u v w" by simp
      have "reached start s v"
      proof (rule ccontr)
        assume nr: "\<not> reached start s v"
        then have "dist_at s v = dist0 g start v" by (rule b(7))
        moreover from nr have "v \<noteq> start" by (simp add: reached_def)
        moreover from reg rpath_step(2) have "v \<in> dom (nodes g)"
          unfolding adj_registered_def by blast
        ultimately have "dist_at s v = sentinel" by (simp add: dist0_def)
        with dv rpath_step(4) show False by simp
      qed
      with dv show ?thesis by simp
    qed
  next
    assume "\<exists>y. (dist_at s y, y) \<in> set (pq s) \<and> dist_at s y \<le> d"
    then obtain y where "(dist_at s y, y) \<in> set (pq s)" "dist_at s y \<le> d" by blast
    with c0 show ?thesis by force
  qed
qed

lemma exit_facts:
  assumes ex: "loop_exit ec g start goal t" and nn: "nonneg_costs ec g"
    and gr: "goal \<in> dom (nodes g)"
  shows "(dist_at t goal = sentinel \<and> pq t = []) \<or>
         (dist_at t goal < sentinel \<and>
          (\<exists>p. bchain (prev_map t) start goal p \<and> rpath ec g start p (dist_at t goal)) \<and>
          (adj_registered g \<longrightarrow> (\<forall>q c. rpath ec g start (goal # q) c \<longrightarrow> dist_at t goal \<le> c)))"
  using ex unfolding loop_exit_def
proof (elim disjE conjE exE)
  assume e: "pq t = []" and inv: "head_inv ec g start goal t"
  note h = head_invD [OF inv]
  note b = base_invD [OF h(1)]
  have nr: "\<not> reached start t goal" using b(11) e by auto
  then have "goal \<noteq> start" by (simp add: reached_def)
  with b(7) [OF nr] gr have "dist_at t goal = sentinel" by (simp add: dist0_def)
  with e show ?thesis by simp
next
  fix s' cd
  assume inv: "head_inv ec g start goal s'" and ne: "pq s' \<noteq> []"
    and top: "Min (set (pq s')) = (cd, goal)" and t: "t = s'\<lparr> pq := remove1 (cd, goal) (pq s') \<rparr>"
  note h = head_invD [OF inv]
  note b = base_invD [OF h(1)]
  note tp = pq_top_props [OF ne top]
  have D: "dist_at t y = dist_at s' y" for y by (simp add: t dist_at_def)
  have P: "prev_map t = prev_map s'" by (simp add: t)
  have rg: "reached start s' goal" using tp(1) by (rule b(2))
  then have fr: "(dist_at s' goal, goal) \<in> set (pq s')" by (rule b(11))
  have dcd: "dist_at s' goal = cd" using tp(2) [OF fr] b(3) [OF tp(1)] by simp
  have chain: "dist_at s' goal < sentinel \<and>
      (\<exists>p. bchain (prev_map s') start goal p \<and> rpath ec g start p (dist_at s' goal))"
  proof (cases "goal = start")
    case True
    have "bchain (prev_map s') start start [start]" by (rule bchain_start)
    moreover have "rpath ec g start [start] (dist_at s' start)"
      using b(5) rpath_start [of ec g start] by simp
    ultimately show ?thesis using True b(5) by (auto simp: sentinel_def)
  next
    case False
    from b(8) [OF rg False] obtain x w where x: "prev_map s' goal = Some x" "settled start s' x"
      "(goal, w) \<in> set (adj_at g x)" "dist_at s' goal = dist_at s' x + ec x goal w"
      "dist_at s' goal < sentinel" by blast
    from b(10) [OF x(2)] obtain p where p: "bchain (prev_map s') start x p"
      "rpath ec g start p (dist_at s' x)" by blast
    from bchain_hd [OF p(1)] obtain q where q: "p = x # q" by blast
    have "bchain (prev_map s') start goal (goal # p)"
      using False x(1) p(1) by (rule bchain_step)
    moreover have "rpath ec g start (goal # p) (dist_at s' goal)"
      using rpath_step [OF p(2) [unfolded q] x(3)] x(4) by (simp add: q)
    ultimately show ?thesis using x(5) by blast
  qed
  have opt: "dist_at s' goal \<le> c" if reg: "adj_registered g" and r: "rpath ec g start (goal # q) c" for q c
  proof (cases "c < sentinel")
    case True
    from path_lower_bound [OF inv nn reg r True] show ?thesis
    proof
      assume "reached start s' (hd (goal # q)) \<and> dist_at s' (hd (goal # q)) \<le> c"
      then show ?thesis by simp
    next
      assume "\<exists>y. (dist_at s' y, y) \<in> set (pq s') \<and> dist_at s' y \<le> c"
      then obtain y where y: "(dist_at s' y, y) \<in> set (pq s')" "dist_at s' y \<le> c" by blast
      from tp(2) [OF y(1)] y(2) dcd show ?thesis by simp
    qed
  next
    case False
    with chain show ?thesis by simp
  qed
  from chain opt show ?thesis unfolding D P by blast
qed

subsection \<open>An unreachable goal is never written\<close>







section \<open>Shortest-path engine: results\<close>

lemma dijkstra_core_result:
  assumes fin: "finite (dom (adj g))" and nn: "nonneg_costs ec g" and gr: "goal \<in> dom (nodes g)"
  shows "\<exists>t. dijkstra_loop ec g goal (init_state g start) = Some t \<and>
     ((dist_at t goal = sentinel \<and> pq t = [] \<and> dijkstra_core ec g start goal = Some ([], - 1)) \<or>
      (dist_at t goal < sentinel \<and>
       (\<exists>p. bchain (prev_map t) start goal p \<and> walk_back (prev_map t) start goal [] = Some p \<and>
            rpath ec g start p (dist_at t goal) \<and>
            dijkstra_core ec g start goal = Some (rev p, dist_at t goal)) \<and>
       (adj_registered g \<longrightarrow> (\<forall>q c. rpath ec g start (goal # q) c \<longrightarrow> dist_at t goal \<le> c))))"
proof -
  from loop_total [OF fin nn init_head_inv] obtain t where
    t: "dijkstra_loop ec g goal (init_state g start) = Some t" and ex: "loop_exit ec g start goal t"
    by blast
  from exit_facts [OF ex nn gr] show ?thesis
  proof (elim disjE conjE exE)
    assume a: "dist_at t goal = sentinel" "pq t = []"
    then have "dijkstra_core ec g start goal = Some ([], - 1)"
      by (simp add: dijkstra_core_def t)
    with t a show ?thesis by blast
  next
    fix p
    assume lt: "dist_at t goal < sentinel" and p: "bchain (prev_map t) start goal p"
      "rpath ec g start p (dist_at t goal)"
      and opt: "adj_registered g \<longrightarrow> (\<forall>q c. rpath ec g start (goal # q) c \<longrightarrow> dist_at t goal \<le> c)"
    from walk_back_bchain [OF p(1), of "[]"]
    have w: "walk_back (prev_map t) start goal [] = Some p" by simp
    with lt have "dijkstra_core ec g start goal = Some (rev p, dist_at t goal)"
      by (simp add: dijkstra_core_def t)
    with t lt p w opt show ?thesis by blast
  qed
qed

text \<open>
  C1 (as amended).  For a finite graph in which every id of the adjacency structure is a
  registered node, a cost function that is non-negative on every edge, and registered start
  and goal: when the engine returns a route and a cost, the route is a directed path from
  start to goal whose edge costs sum to that cost, and no directed path from start to goal
  costs less.  The engine is the one that leaves the loop as soon as the goal is popped, so
  the early exit costs nothing.  \<open>dijkstra_p1\<close> and \<open>dijkstra_sm\<close> are \<open>dijkstra_core\<close> at their
  cost functions \<open>cost_p1\<close> and \<open>cost_sm\<close>.
\<close>

theorem dijkstra_optimal:
  assumes "finite (dom (adj g))" and "adj_registered g" and "nonneg_costs ec g"
    and "start \<in> dom (nodes g)" and "goal \<in> dom (nodes g)"
    and "dijkstra_core ec g start goal = Some (route, cost)" and "route \<noteq> []"
  shows "rpath ec g start (rev route) cost \<and> hd route = start \<and> last route = goal \<and>
         (\<forall>q c. rpath ec g start (goal # q) c \<longrightarrow> cost \<le> c)"
proof -
  from dijkstra_core_result [OF assms(1,3,5), of start] obtain t where
    "(dist_at t goal = sentinel \<and> pq t = [] \<and> dijkstra_core ec g start goal = Some ([], - 1)) \<or>
      (dist_at t goal < sentinel \<and>
       (\<exists>p. bchain (prev_map t) start goal p \<and> walk_back (prev_map t) start goal [] = Some p \<and>
            rpath ec g start p (dist_at t goal) \<and>
            dijkstra_core ec g start goal = Some (rev p, dist_at t goal)) \<and>
       (adj_registered g \<longrightarrow> (\<forall>q c. rpath ec g start (goal # q) c \<longrightarrow> dist_at t goal \<le> c)))"
    by blast
  then show ?thesis
  proof (elim disjE conjE exE)
    assume "dijkstra_core ec g start goal = Some ([], - 1)"
    with assms(6,7) show ?thesis by simp
  next
    fix p
    assume p: "bchain (prev_map t) start goal p" "rpath ec g start p (dist_at t goal)"
      "dijkstra_core ec g start goal = Some (rev p, dist_at t goal)"
      and opt: "adj_registered g \<longrightarrow> (\<forall>q c. rpath ec g start (goal # q) c \<longrightarrow> dist_at t goal \<le> c)"
    from p(3) assms(6) have r: "route = rev p" "cost = dist_at t goal" by simp_all
    from bchain_ends [OF p(1)] bchain_hd [OF p(1)] have "hd route = start" "last route = goal"
      by (auto simp: r hd_rev last_rev)
    with p(2) opt assms(2) show ?thesis by (simp add: r)
  qed
qed



text \<open>
  C10.  For a finite graph with non-negative edge costs and registered start and goal, the
  main loop ends (after finitely many extractions and insertions), the engine returns a
  result, and whenever it goes on to reconstruct a route the walk along the predecessor
  links ends at the start, passing through no node twice.
\<close>

theorem dijkstra_terminates:
  assumes "finite (dom (adj g))" and "nonneg_costs ec g"
    and "start \<in> dom (nodes g)" and "goal \<in> dom (nodes g)"
  shows "\<exists>t. dijkstra_loop ec g goal (init_state g start) = Some t \<and>
           (\<exists>r. dijkstra_core ec g start goal = Some r) \<and>
           (dist_at t goal < sentinel \<longrightarrow>
              (\<exists>p. walk_back (prev_map t) start goal [] = Some p \<and> distinct p \<and>
                   hd p = goal \<and> last p = start))"
proof -
  from dijkstra_core_result [OF assms(1,2,4), of start] obtain t where
    t: "dijkstra_loop ec g goal (init_state g start) = Some t" and
    c: "(dist_at t goal = sentinel \<and> pq t = [] \<and> dijkstra_core ec g start goal = Some ([], - 1)) \<or>
      (dist_at t goal < sentinel \<and>
       (\<exists>p. bchain (prev_map t) start goal p \<and> walk_back (prev_map t) start goal [] = Some p \<and>
            rpath ec g start p (dist_at t goal) \<and>
            dijkstra_core ec g start goal = Some (rev p, dist_at t goal)) \<and>
       (adj_registered g \<longrightarrow> (\<forall>q c. rpath ec g start (goal # q) c \<longrightarrow> dist_at t goal \<le> c)))"
    by blast
  from c show ?thesis
  proof (elim disjE conjE exE)
    assume "dist_at t goal = sentinel" "dijkstra_core ec g start goal = Some ([], - 1)"
    with t show ?thesis by auto
  next
    fix p
    assume p: "bchain (prev_map t) start goal p" "walk_back (prev_map t) start goal [] = Some p"
      "dijkstra_core ec g start goal = Some (rev p, dist_at t goal)"
    from bchain_distinct [OF p(1)] bchain_ends [OF p(1)] p(2,3) t show ?thesis by auto
  qed
qed

subsection \<open>Examples\<close>

lemma pair_le_iff: "((a::real), (x::string)) \<le> (b, y) \<longleftrightarrow> a < b \<or> (a = b \<and> x \<le> y)"
  by (auto simp: less_eq_prod_def)

lemmas engine_defs =
  dijkstra_core_def init_state_def dijkstra_loop.simps walk_back.simps relax_def dist_at_def
  prev_at_def adj_at_def sentinel_def Min.set_eq_fold min_def pair_le_iff Let_def

lemma nonneg_costs_p1:
  "lengths_nonneg g \<Longrightarrow> (\<And>u v. 0 \<le> lightDelay_p1 td u v) \<Longrightarrow> nonneg_costs (cost_p1 td) g"
  unfolding nonneg_costs_def lengths_nonneg_def cost_p1_def AVG_SPEED_def
  by (auto intro!: add_nonneg_nonneg)


lemma cycle_edges:
  "(v, w) \<in> set (adj_at cycle_graph u) \<Longrightarrow> v \<in> {''A'', ''B'', ''C'', ''D''} \<and> w = 100"
  by (auto simp: adj_at_def cycle_graph_def split: if_splits)

lemma cycle_fin: "finite (dom (adj cycle_graph))"
  by (simp add: cycle_graph_def)

lemma cycle_nodes: "dom (nodes cycle_graph) = {''A'', ''B'', ''C'', ''D''}"
  by (auto simp: cycle_graph_def split: if_splits)

lemma cycle_reg: "adj_registered cycle_graph"
proof -
  have "dom (adj cycle_graph) \<subseteq> dom (nodes cycle_graph)"
    by (auto simp: cycle_graph_def split: if_splits)
  then show ?thesis
    unfolding adj_registered_def cycle_nodes using cycle_edges by blast
qed

lemma cycle_lengths: "lengths_nonneg cycle_graph"
  unfolding lengths_nonneg_def using cycle_edges by fastforce

lemma cycle_delay_nonneg: "0 \<le> lightDelay_p1 cycle_delay u v"
  by (simp add: lightDelay_p1_def cycle_delay_def)

lemma cycle_nn: "nonneg_costs (cost_p1 cycle_delay) cycle_graph"
  by (rule nonneg_costs_p1 [OF cycle_lengths cycle_delay_nonneg])

lemma cycle_run:
  "dijkstra_core (cost_p1 cycle_delay) cycle_graph ''A'' ''C'' = Some ([''A'', ''D'', ''C''], 100 / 13.9 * 2)"
  by (simp add: cycle_graph_def cycle_delay_def engine_defs cost_p1_def lightDelay_p1_def AVG_SPEED_def)

theorem dijkstra_optimal_witness:
  "dijkstra_p1 cycle_graph cycle_delay ''A'' ''C'' = Some ([''A'', ''D'', ''C''], 100 / 13.9 * 2) \<and>
   rpath (cost_p1 cycle_delay) cycle_graph ''A'' [''C'', ''D'', ''A''] (100 / 13.9 * 2)"
proof -
  have a: "''A'' \<in> dom (nodes cycle_graph)" and c: "''C'' \<in> dom (nodes cycle_graph)"
    by (simp_all add: cycle_nodes)
  have ne: "[''A'', ''D'', ''C''] \<noteq> []" by simp
  from dijkstra_optimal [OF cycle_fin cycle_reg cycle_nn a c cycle_run ne] cycle_run
  show ?thesis by (simp add: dijkstra_p1_def)
qed





subsection \<open>A cycle of negative cost\<close>










theorem dijkstra_terminates_witness:
  "dijkstra_loop (cost_p1 cycle_delay) cycle_graph ''C'' (init_state cycle_graph ''A'') \<noteq> None \<and>
   dijkstra_p1 cycle_graph cycle_delay ''A'' ''C'' \<noteq> None"
proof -
  have a: "''A'' \<in> dom (nodes cycle_graph)" and c: "''C'' \<in> dom (nodes cycle_graph)"
    by (simp_all add: cycle_nodes)
  from dijkstra_terminates [OF cycle_fin cycle_nn a c]
  show ?thesis by (auto simp: dijkstra_p1_def)
qed

text \<open>
  C2.  In \<^verbatim>\<open>project1.cpp\<close> the cost of an edge is its length divided by 13.9 plus the delay
  stored for the pair (origin, destination), 0 when there is none, and on the four-node
  cycle with a 10 s delay at \<open>B\<close> the engine returns the route A-D-C with cost
  \<open>100 / 13.9 * 2\<close>.  In \<^verbatim>\<open>smart_mobility_shortest_path.cpp\<close> the delay is looked up and not
  used: the cost of an edge is its length alone, and on the same cycle the engine returns
  the route A-B-C through the delayed node.
\<close>

theorem signal_delay_example:
  "cost_p1 trafficDelay u v w = w / 13.9 + lightDelay_p1 trafficDelay u v \<and>
   dijkstra_p1 cycle_graph cycle_delay ''A'' ''C'' = Some ([''A'', ''D'', ''C''], 100 / 13.9 * 2) \<and>
   cost_sm trafficLightDelay u v w = w \<and>
   dijkstra_sm cycle_graph cycle_light ''A'' ''C'' = Some [''A'', ''B'', ''C'']"
proof -
  have 1: "cost_p1 trafficDelay u v w = w / 13.9 + lightDelay_p1 trafficDelay u v"
    by (simp add: cost_p1_def AVG_SPEED_def)
  have 2: "dijkstra_p1 cycle_graph cycle_delay ''A'' ''C'' = Some ([''A'', ''D'', ''C''], 100 / 13.9 * 2)"
    unfolding dijkstra_p1_def by (rule cycle_run)
  have 3: "cost_sm trafficLightDelay u v w = w"
    by (simp add: cost_sm_def)
  have 4: "dijkstra_sm cycle_graph cycle_light ''A'' ''C'' = Some [''A'', ''B'', ''C'']"
    by (simp add: dijkstra_sm_def cycle_graph_def cycle_light_def engine_defs cost_sm_def)
  show ?thesis by (intro conjI) (rule 1 2 3 4)+
qed

lemma detour_rpath: "rpath (cost_sm Map.empty) detour_graph ''S'' [''G'', ''X'', ''S''] 2"
proof -
  have 0: "rpath (cost_sm Map.empty) detour_graph ''S'' [''S''] 0" by (rule rpath_start)
  have 1: "(''X'', 1) \<in> set (adj_at detour_graph ''S'')" by (simp add: adj_at_def detour_graph_def)
  have 2: "(''G'', 1) \<in> set (adj_at detour_graph ''X'')" by (simp add: adj_at_def detour_graph_def)
  from rpath_step [OF rpath_step [OF 0 1] 2] show ?thesis by (simp add: cost_sm_def)
qed

text \<open>
  The claim as first stated fails on the graph built from \<open>detour_doc\<close>: \<open>X\<close> has no node entry,
  so \<^verbatim>\<open>dist[X]\<close> reads 0 and is never lowered; the engine returns the direct route of cost 10
  although the path through \<open>X\<close> costs 2.
\<close>

theorem dijkstra_optimal_counterexample:
  "loadGraphML_sm atof_small (Some detour_doc) = Some detour_graph \<and>
   dijkstra_core (cost_sm Map.empty) detour_graph ''S'' ''G'' = Some ([''S'', ''G''], 10) \<and>
   dijkstra_sm detour_graph Map.empty ''S'' ''G'' = Some [''S'', ''G''] \<and>
   rpath (cost_sm Map.empty) detour_graph ''S'' [''G'', ''X'', ''S''] 2"
proof -
  have 1: "loadGraphML_sm atof_small (Some detour_doc) = Some detour_graph"
    by (simp add: loadGraphML_sm_def detour_doc_def detour_graph_def atof_small_def builder_defs
        isOne_of_def haversine_same)
  have 2: "dijkstra_core (cost_sm Map.empty) detour_graph ''S'' ''G'' = Some ([''S'', ''G''], 10)"
    by (simp add: detour_graph_def engine_defs cost_sm_def)
  have 3: "dijkstra_sm detour_graph Map.empty ''S'' ''G'' = Some [''S'', ''G'']"
    by (simp add: dijkstra_sm_def 2)
  show ?thesis by (intro conjI) (rule 1 2 3 detour_rpath)+
qed

end
